theory Spec2Isabelle
  imports Main
begin

section \<open>JavaScript values and the built-in operations the template engine relies on\<close>

text \<open>
  The template engine (class \<open>TemplateEngine\<close>) rewrites a template string against a data
  context. A data context is a tree of objects, arrays and scalars. Strings are lists of code
  units; the model covers code units below 256. An object is its list of own data properties in
  enumeration order (keys pairwise distinct). The members that a value inherits from the built-in
  prototypes (\<open>constructor\<close>, \<open>toString\<close>, ...) are functions or accessors and lie outside this
  value type: the model covers the reads of own properties and of names that no prototype
  defines, and such a name reads as \<open>undefined\<close>. The two registries of the engine are \<open>Map\<close>
  objects, read with \<open>get\<close>, which looks at the entries only.

  The numbers of JavaScript are IEEE doubles. The engine never calculates with them: it converts
  them to strings, tests them for truth, and parses them from helper arguments. These built-in
  conversions are taken as a parameter \<open>N\<close>, so every theorem below holds for every number
  representation.
\<close>

datatype error =
    TypeError    \<comment> \<open>reading a property of \<open>null\<close>/\<open>undefined\<close>, or calling what is not a function\<close>
  | RangeError   \<comment> \<open>maximum call stack size exceeded\<close>
  | HelperError  \<comment> \<open>an exception thrown by a registered helper\<close>

datatype 'n jsval =
    VUndefined
  | VNull
  | VBool bool
  | VNum 'n
  | VStr string
  | VArr "'n jsval list"
  | VObj "(string \<times> 'n jsval) list"

record 'n number_ops =
  of_index :: "nat \<Rightarrow> 'n"                \<comment> \<open>the number value of an array index or length\<close>
  num_to_string :: "'n \<Rightarrow> string"      \<comment> \<open>\<open>Number::toString\<close>\<close>
  num_falsy :: "'n \<Rightarrow> bool"            \<comment> \<open>\<open>+0\<close>, \<open>-0\<close> and \<open>NaN\<close>\<close>
  num_finite :: "'n \<Rightarrow> bool"           \<comment> \<open>neither \<open>NaN\<close> nor an infinity\<close>
  is_nan :: "'n \<Rightarrow> bool"
  string_to_number :: "string \<Rightarrow> 'n"   \<comment> \<open>\<open>Number(s)\<close> on a string\<close>

definition then_res :: "error + 'a \<Rightarrow> ('a \<Rightarrow> error + 'b) \<Rightarrow> error + 'b" where
  "then_res m f = (case m of Inl e \<Rightarrow> Inl e | Inr x \<Rightarrow> f x)"

subsection \<open>Character classes of the regular expressions\<close>

definition is_word :: "char \<Rightarrow> bool" where
  \<comment> \<open>\<open>\w\<close>\<close>
  "is_word c \<longleftrightarrow>
     c \<in> set ''abcdefghijklmnopqrstuvwxyzABCDEFGHIJKLMNOPQRSTUVWXYZ0123456789_''"

definition is_space :: "char \<Rightarrow> bool" where
  \<comment> \<open>\<open>\s\<close> on code units below 256: tab, line feed, vertical tab, form feed, carriage return,
      space, no-break space\<close>
  "is_space c \<longleftrightarrow>
     c \<in> set [CHR 0x09, CHR 0x0A, CHR 0x0B, CHR 0x0C, CHR 0x0D, CHR 0x20, CHR 0xA0]"

definition dquote :: char where
  "dquote = CHR 0x22"

definition backslash :: char where
  "backslash = CHR 0x5C"

subsection \<open>Truth, property access, string conversion\<close>

fun truthy :: "'n number_ops \<Rightarrow> 'n jsval \<Rightarrow> bool" where
  "truthy N VUndefined = False"
| "truthy N VNull = False"
| "truthy N (VBool b) = b"
| "truthy N (VNum n) = (\<not> num_falsy N n)"
| "truthy N (VStr s) = (s \<noteq> [])"
| "truthy N (VArr xs) = True"
| "truthy N (VObj kvs) = True"

definition digit_char :: "nat \<Rightarrow> char" where
  "digit_char n = char_of (48 + n)"

fun string_of_nat :: "nat \<Rightarrow> string" where
  "string_of_nat n =
     (if n < 10 then [digit_char n] else string_of_nat (n div 10) @ [digit_char (n mod 10)])"

definition index_props :: "'a list \<Rightarrow> (string \<times> 'a) list" where
  \<comment> \<open>the index properties \<open>"0"\<close>, \<open>"1"\<close>, ... of an array or a string\<close>
  "index_props xs = zip (map string_of_nat [0..<length xs]) xs"

definition lookup_own :: "(string \<times> 'n jsval) list \<Rightarrow> string \<Rightarrow> 'n jsval" where
  "lookup_own kvs key = (case map_of kvs key of Some v \<Rightarrow> v | None \<Rightarrow> VUndefined)"

fun prop_get :: "'n number_ops \<Rightarrow> 'n jsval \<Rightarrow> string \<Rightarrow> error + 'n jsval" where
  \<comment> \<open>\<open>v[key]\<close>\<close>
  "prop_get N VUndefined key = Inl TypeError"
| "prop_get N VNull key = Inl TypeError"
| "prop_get N (VBool b) key = Inr VUndefined"
| "prop_get N (VNum n) key = Inr VUndefined"
| "prop_get N (VStr s) key =
     Inr (if key = ''length'' then VNum (of_index N (length s))
          else lookup_own (index_props (map (\<lambda>c. VStr [c]) s)) key)"
| "prop_get N (VArr xs) key =
     Inr (if key = ''length'' then VNum (of_index N (length xs))
          else lookup_own (index_props xs) key)"
| "prop_get N (VObj kvs) key = Inr (lookup_own kvs key)"

fun join_with :: "string \<Rightarrow> string list \<Rightarrow> string" where
  "join_with sep [] = []"
| "join_with sep [x] = x"
| "join_with sep (x # y # ys) = x @ sep @ join_with sep (y # ys)"

fun to_string :: "'n number_ops \<Rightarrow> 'n jsval \<Rightarrow> string" where
  \<comment> \<open>\<open>String(v)\<close>, also the conversion applied to what a replacer function returns\<close>
  "to_string N VUndefined = ''undefined''"
| "to_string N VNull = ''null''"
| "to_string N (VBool b) = (if b then ''true'' else ''false'')"
| "to_string N (VNum n) = num_to_string N n"
| "to_string N (VStr s) = s"
| "to_string N (VArr xs) =
     join_with '','' (map (\<lambda>x. if x = VUndefined \<or> x = VNull then [] else to_string N x) xs)"
| "to_string N (VObj kvs) = ''[object Object]''"

subsection \<open>\<open>JSON.stringify\<close>\<close>

definition hex_digit :: "nat \<Rightarrow> char" where
  "hex_digit n = (if n < 10 then char_of (48 + n) else char_of (87 + n))"

definition json_quote_char :: "char \<Rightarrow> string" where
  "json_quote_char c =
     (if c = dquote then [backslash, dquote]
      else if c = backslash then [backslash, backslash]
      else if c = CHR 0x08 then [backslash, CHR ''b'']
      else if c = CHR 0x0C then [backslash, CHR ''f'']
      else if c = CHR 0x0A then [backslash, CHR ''n'']
      else if c = CHR 0x0D then [backslash, CHR ''r'']
      else if c = CHR 0x09 then [backslash, CHR ''t'']
      else if of_char c < (32::nat)
        then [backslash, CHR ''u'', CHR ''0'', CHR ''0'',
              hex_digit (of_char c div 16), hex_digit (of_char c mod 16)]
      else [c])"

definition json_quote :: "string \<Rightarrow> string" where
  "json_quote s = [dquote] @ concat (map json_quote_char s) @ [dquote]"

fun json_stringify :: "'n number_ops \<Rightarrow> 'n jsval \<Rightarrow> string option" where
  \<comment> \<open>\<open>None\<close> is the result \<open>undefined\<close>\<close>
  "json_stringify N VUndefined = None"
| "json_stringify N VNull = Some ''null''"
| "json_stringify N (VBool b) = Some (if b then ''true'' else ''false'')"
| "json_stringify N (VNum n) = Some (if num_finite N n then num_to_string N n else ''null'')"
| "json_stringify N (VStr s) = Some (json_quote s)"
| "json_stringify N (VArr xs) =
     Some (''['' @ join_with '',''
             (map (\<lambda>x. case json_stringify N x of None \<Rightarrow> ''null'' | Some t \<Rightarrow> t) xs) @ '']'')"
| "json_stringify N (VObj kvs) =
     Some (''{'' @ join_with '',''
             (concat (map (\<lambda>(k, v). case json_stringify N v of
                                        None \<Rightarrow> []
                                      | Some t \<Rightarrow> [json_quote k @ '':'' @ t]) kvs)) @ ''}'')"

section \<open>Path resolution\<close>

fun split_on :: "char \<Rightarrow> string \<Rightarrow> string list" where
  \<comment> \<open>\<open>s.split(c)\<close>: always at least one piece\<close>
  "split_on c [] = [ [] ]"
| "split_on c (x # xs) =
     (if x = c then [] # split_on c xs
      else (case split_on c xs of p # ps \<Rightarrow> (x # p) # ps | [] \<Rightarrow> [ [x] ]))"

definition path_step :: "'n number_ops \<Rightarrow> 'n jsval \<Rightarrow> string \<Rightarrow> error + 'n jsval" where
  \<comment> \<open>\<open>current && current[key] !== undefined ? current[key] : undefined\<close>\<close>
  "path_step N current key =
     (if truthy N current
      then then_res (prop_get N current key) (\<lambda>v.
             if v \<noteq> VUndefined then prop_get N current key else Inr VUndefined)
      else Inr VUndefined)"

fun reduce_res :: "('a \<Rightarrow> 'b \<Rightarrow> error + 'a) \<Rightarrow> 'b list \<Rightarrow> 'a \<Rightarrow> error + 'a" where
  \<comment> \<open>\<open>Array.prototype.reduce\<close> with an initial value and a callback that may throw\<close>
  "reduce_res f [] acc = Inr acc"
| "reduce_res f (x # xs) acc = then_res (f acc x) (reduce_res f xs)"

definition getValueByPath :: "'n number_ops \<Rightarrow> 'n jsval \<Rightarrow> string \<Rightarrow> error + 'n jsval" where
  "getValueByPath N obj path = reduce_res (path_step N) (split_on CHR ''.'' path) obj"


section \<open>Regular-expression matching and \<open>String.prototype.replace\<close>\<close>

text \<open>
  Each regular expression of the source is modelled by a function that tries to match it at the
  start of a string and returns the captured groups with the length of the match. None of the
  expressions looks behind the position it starts at, so a match depends on the rest of the
  string only.

  After \<open>\w+(?:\.\w+)*\<close> every expression requires \<open>}}\<close>. A match of the path can therefore
  only end where the longest run of word characters and dots ends (a shorter one ends before a
  word character or a dot), and it matches when that run is a non-empty sequence of non-empty
  words separated by single dots. Likewise \<open>\s+\<close> before a word character is the whole run of
  white space. A lazy \<open>[\s\S]*?\<close> before a literal stops at the first occurrence of the literal.
\<close>

definition starts_with :: "string \<Rightarrow> string \<Rightarrow> bool" where
  "starts_with lit s \<longleftrightarrow> take (length lit) s = lit"

fun find_first :: "string \<Rightarrow> string \<Rightarrow> (string \<times> string) option" where
  \<comment> \<open>the text before and after the first occurrence of \<open>lit\<close>\<close>
  "find_first lit [] = (if lit = [] then Some ([], []) else None)"
| "find_first lit (c # cs) =
     (if starts_with lit (c # cs) then Some ([], drop (length lit) (c # cs))
      else map_option (\<lambda>(b, a). (c # b, a)) (find_first lit cs))"

definition path_char :: "char \<Rightarrow> bool" where
  "path_char c \<longleftrightarrow> is_word c \<or> c = CHR ''.''"

definition dotted_path :: "string \<Rightarrow> bool" where
  \<comment> \<open>the strings that \<open>\w+(?:\.\w+)*\<close> matches as a whole\<close>
  "dotted_path p \<longleftrightarrow> list_all (\<lambda>seg. seg \<noteq> [] \<and> list_all is_word seg) (split_on CHR ''.'' p)"

definition match_open :: "string \<Rightarrow> string \<Rightarrow> (string \<times> string) option" where
  \<comment> \<open>\<open>kw\s+(\w+(?:\.\w+)*)\}\}\<close>: the path and the text after the marker\<close>
  "match_open kw s =
     (let r1 = drop (length kw) s;
          r2 = dropWhile is_space r1;
          p = takeWhile path_char r2;
          r3 = dropWhile path_char r2
      in if starts_with kw s \<and> length r2 < length r1 \<and> dotted_path p \<and> starts_with ''}}'' r3
         then Some (p, drop 2 r3) else None)"

definition match_each :: "string \<Rightarrow> ((string \<times> string) \<times> nat) option" where
  \<comment> \<open>\<open>/\{\{#each\s+(\w+(?:\.\w+)*)\}\}([\s\S]*?)\{\{\/each\}\}/\<close>\<close>
  "match_each s =
     (case match_open ''{{#each'' s of
        None \<Rightarrow> None
      | Some (path, r) \<Rightarrow>
          (case find_first ''{{/each}}'' r of
             None \<Rightarrow> None
           | Some (content, rest) \<Rightarrow> Some ((path, content), length s - length rest)))"

definition match_if_else :: "string \<Rightarrow> ((string \<times> string \<times> string) \<times> nat) option" where
  \<comment> \<open>\<open>/\{\{#if\s+(\w+(?:\.\w+)*)\}\}([\s\S]*?)\{\{else\}\}([\s\S]*?)\{\{\/if\}\}/\<close>\<close>
  "match_if_else s =
     (case match_open ''{{#if'' s of
        None \<Rightarrow> None
      | Some (path, r) \<Rightarrow>
          (case find_first ''{{else}}'' r of
             None \<Rightarrow> None
           | Some (trueContent, r') \<Rightarrow>
               (case find_first ''{{/if}}'' r' of
                  None \<Rightarrow> None
                | Some (falseContent, rest) \<Rightarrow>
                    Some ((path, trueContent, falseContent), length s - length rest))))"

definition match_if :: "string \<Rightarrow> ((string \<times> string) \<times> nat) option" where
  \<comment> \<open>\<open>/\{\{#if\s+(\w+(?:\.\w+)*)\}\}([\s\S]*?)\{\{\/if\}\}/\<close>\<close>
  "match_if s =
     (case match_open ''{{#if'' s of
        None \<Rightarrow> None
      | Some (path, r) \<Rightarrow>
          (case find_first ''{{/if}}'' r of
             None \<Rightarrow> None
           | Some (content, rest) \<Rightarrow> Some ((path, content), length s - length rest)))"

definition match_var :: "string \<Rightarrow> ((string \<times> string) \<times> nat) option" where
  \<comment> \<open>\<open>/\{\{(\w+(?:\.\w+)*)\}\}/\<close>; the groups are the matched text and the path\<close>
  "match_var s =
     (let p = takeWhile path_char (drop 2 s);
          r = dropWhile path_char (drop 2 s)
      in if starts_with ''{{'' s \<and> dotted_path p \<and> starts_with ''}}'' r
         then Some ((take (length p + 4) s, p), length p + 4) else None)"

definition match_this_prop :: "string \<Rightarrow> (string \<times> nat) option" where
  \<comment> \<open>\<open>/\{\{this\.(\w+)\}\}/\<close>\<close>
  "match_this_prop s =
     (let w = takeWhile is_word (drop 7 s);
          r = dropWhile is_word (drop 7 s)
      in if starts_with ''{{this.'' s \<and> w \<noteq> [] \<and> starts_with ''}}'' r
         then Some (w, length w + 9) else None)"

text \<open>
  In \<open>/\{\{(\w+)\s+([^}]+)\}\}/\<close> the name is the whole run of word characters and \<open>\s+\<close> first
  takes the whole run of white space. \<open>[^}]+\<close> then takes everything up to the next \<open>}\<close>. When
  nothing is left for it, \<open>\s+\<close> gives back its last character (it must keep one), which becomes
  the argument text.
\<close>

definition match_helper :: "string \<Rightarrow> ((string \<times> string \<times> string) \<times> nat) option" where
  \<comment> \<open>the groups are the matched text, the helper name and the argument text\<close>
  "match_helper s =
     (let helperName = takeWhile is_word (drop 2 s);
          r1 = dropWhile is_word (drop 2 s);
          ws = takeWhile is_space r1;
          r2 = dropWhile is_space r1;
          a = takeWhile (\<lambda>c. c \<noteq> CHR ''}'') r2;
          r3 = dropWhile (\<lambda>c. c \<noteq> CHR ''}'') r2;
          len = 2 + length helperName + length ws + length a + 2
      in if starts_with ''{{'' s \<and> helperName \<noteq> [] \<and> ws \<noteq> [] \<and> starts_with ''}}'' r3
         then (if a \<noteq> [] then Some ((take len s, helperName, a), len)
               else if 2 \<le> length ws then Some ((take len s, helperName, [last ws]), len)
               else None)
         else None)"

text \<open>
  \<open>str.replace(re, fn)\<close> with a global expression: the matches are found from left to right
  without overlap, the replacer is called on each in order, and its results replace the matched
  texts. After an empty match the scan moves on by one code unit. An exception of the replacer
  ends the call.
\<close>

function replace_all ::
  "(string \<Rightarrow> ('g \<times> nat) option) \<Rightarrow> ('g \<Rightarrow> error + string) \<Rightarrow> string \<Rightarrow> error + string" where
  "replace_all m cb s =
     (case m s of
        None \<Rightarrow>
          (case s of
             [] \<Rightarrow> Inr []
           | c # cs \<Rightarrow> then_res (replace_all m cb cs) (\<lambda>r. Inr (c # r)))
      | Some (g, len) \<Rightarrow>
          then_res (cb g) (\<lambda>t.
            case s of
              [] \<Rightarrow> Inr t
            | c # cs \<Rightarrow>
                if len = 0 then then_res (replace_all m cb cs) (\<lambda>r. Inr (t @ c # r))
                else then_res (replace_all m cb (drop len s)) (\<lambda>r. Inr (t @ r))))"
  by pat_completeness auto
termination
  by (relation "measure (\<lambda>(m, cb, s). length s)") auto

declare replace_all.simps [simp del]


section \<open>The four passes\<close>

subsection \<open>Loop expansion\<close>

fun set_prop :: "string \<Rightarrow> 'v \<Rightarrow> (string \<times> 'v) list \<Rightarrow> (string \<times> 'v) list" where
  \<comment> \<open>defining a property: an existing key keeps its place, a new key goes last\<close>
  "set_prop k v [] = [(k, v)]"
| "set_prop k v ((k', v') # kvs) =
     (if k' = k then (k, v) # kvs else (k', v') # set_prop k v kvs)"

fun spread :: "'n jsval \<Rightarrow> (string \<times> 'n jsval) list" where
  \<comment> \<open>\<open>{...data}\<close>: the own enumerable properties\<close>
  "spread (VObj kvs) = kvs"
| "spread (VArr xs) = index_props xs"
| "spread (VStr s) = index_props (map (\<lambda>c. VStr [c]) s)"
| "spread v = []"

definition itemData :: "'n number_ops \<Rightarrow> 'n jsval \<Rightarrow> 'n jsval \<Rightarrow> nat \<Rightarrow> nat \<Rightarrow> 'n jsval" where
  \<comment> \<open>the loop scope of the element \<open>item\<close> at \<open>index\<close> of an array of length \<open>len\<close>\<close>
  "itemData N data item index len =
     VObj (set_prop ''@last'' (VBool (int index = int len - 1))
          (set_prop ''@first'' (VBool (index = 0))
          (set_prop ''@index'' (VNum (of_index N index))
          (set_prop ''this'' item (spread data)))))"

definition this_prop_text :: "'n number_ops \<Rightarrow> 'n jsval \<Rightarrow> string \<Rightarrow> error + string" where
  \<comment> \<open>the replacer \<open>(m, prop) => item[prop] !== undefined ? item[prop] : ''\<close>, its result
      converted to a string\<close>
  "this_prop_text N item prop =
     then_res (prop_get N item prop) (\<lambda>v.
       if v \<noteq> VUndefined then then_res (prop_get N item prop) (\<lambda>v'. Inr (to_string N v'))
       else Inr [])"

definition is_object :: "'n jsval \<Rightarrow> bool" where
  \<comment> \<open>\<open>typeof v === 'object'\<close>\<close>
  "is_object v \<longleftrightarrow> (case v of VNull \<Rightarrow> True | VArr xs \<Rightarrow> True | VObj kvs \<Rightarrow> True | _ \<Rightarrow> False)"

definition this_replacement :: "'n number_ops \<Rightarrow> 'n jsval \<Rightarrow> string" where
  \<comment> \<open>\<open>typeof item === 'object' ? JSON.stringify(item) : item\<close>, converted to a string\<close>
  "this_replacement N item =
     (if is_object item
      then (case json_stringify N item of Some t \<Rightarrow> t | None \<Rightarrow> ''undefined'')
      else to_string N item)"

text \<open>
  A replacement given as a string is a pattern: \<open>$$\<close> stands for a dollar sign, \<open>$&\<close> for the
  matched text, \<open>$`\<close> for the text before the match and \<open>$'\<close> for the text after it. The
  expression \<open>/\{\{this\}\}/g\<close> has no groups, so \<open>$1\<close> and \<open>$<name>\<close> stay as they are.
\<close>

fun get_substitution :: "string \<Rightarrow> string \<Rightarrow> string \<Rightarrow> string \<Rightarrow> string" where
  "get_substitution matched preceding following (c # c' # r) =
     (if c = CHR ''$'' \<and> c' = CHR ''$'' then CHR ''$'' # get_substitution matched preceding following r
      else if c = CHR ''$'' \<and> c' = CHR ''&'' then matched @ get_substitution matched preceding following r
      else if c = CHR ''$'' \<and> c' = CHR 0x60 then preceding @ get_substitution matched preceding following r
      else if c = CHR ''$'' \<and> c' = CHR 0x27 then following @ get_substitution matched preceding following r
      else c # get_substitution matched preceding following (c' # r))"
| "get_substitution matched preceding following r = r"

function replace_this :: "string \<Rightarrow> string \<Rightarrow> string \<Rightarrow> string" where
  \<comment> \<open>\<open>(preceding + s).replace(/\{\{this\}\}/g, replacement)\<close> from the position after \<open>preceding\<close>\<close>
  "replace_this replacement preceding s =
     (case s of
        [] \<Rightarrow> []
      | c # cs \<Rightarrow>
          if starts_with ''{{this}}'' s
          then get_substitution ''{{this}}'' preceding (drop 8 s) replacement
                 @ replace_this replacement (preceding @ ''{{this}}'') (drop 8 s)
          else c # replace_this replacement (preceding @ [c]) cs)"
  by pat_completeness auto
termination
  by (relation "measure (\<lambda>(replacement, preceding, s). length s)") auto

declare replace_this.simps [simp del]

fun map_res :: "('a \<Rightarrow> error + 'b) \<Rightarrow> 'a list \<Rightarrow> error + 'b list" where
  \<comment> \<open>\<open>Array.prototype.map\<close> with a callback that may throw\<close>
  "map_res f [] = Inr []"
| "map_res f (x # xs) = then_res (f x) (\<lambda>y. then_res (map_res f xs) (\<lambda>ys. Inr (y # ys)))"

definition loop_item ::
  "'n number_ops \<Rightarrow> (string \<Rightarrow> 'n jsval \<Rightarrow> error + string) \<Rightarrow> 'n jsval \<Rightarrow> string \<Rightarrow> nat
     \<Rightarrow> nat \<times> 'n jsval \<Rightarrow> error + string" where
  \<comment> \<open>the callback of \<open>items.map\<close>\<close>
  "loop_item N processTemplate data content len = (\<lambda>(index, item).
     then_res (replace_all match_this_prop (this_prop_text N item) content) (\<lambda>itemContent.
       processTemplate (replace_this (this_replacement N item) [] itemContent)
         (itemData N data item index len)))"

definition loop_block ::
  "'n number_ops \<Rightarrow> (string \<Rightarrow> 'n jsval \<Rightarrow> error + string) \<Rightarrow> 'n jsval \<Rightarrow> string \<times> string
     \<Rightarrow> error + string" where
  \<comment> \<open>the replacer \<open>(match, path, content) => ...\<close> of \<open>processLoops\<close>\<close>
  "loop_block N processTemplate data = (\<lambda>(path, content).
     then_res (getValueByPath N data path) (\<lambda>items.
       case items of
         VArr xs \<Rightarrow>
           then_res (map_res (loop_item N processTemplate data content (length xs))
                       (zip [0..<length xs] xs))
             (\<lambda>parts. Inr (concat parts))
       | _ \<Rightarrow> Inr []))"

definition processLoops ::
  "'n number_ops \<Rightarrow> (string \<Rightarrow> 'n jsval \<Rightarrow> error + string) \<Rightarrow> string \<Rightarrow> 'n jsval
     \<Rightarrow> error + string" where
  \<comment> \<open>the second argument is \<open>this.processTemplate\<close>, which the replacer calls\<close>
  "processLoops N processTemplate template data =
     replace_all match_each (loop_block N processTemplate data) template"

subsection \<open>Conditional expansion\<close>

definition if_else_block ::
  "'n number_ops \<Rightarrow> (string \<Rightarrow> 'n jsval \<Rightarrow> error + string) \<Rightarrow> 'n jsval
     \<Rightarrow> string \<times> string \<times> string \<Rightarrow> error + string" where
  "if_else_block N processTemplate data = (\<lambda>(path, trueContent, falseContent).
     then_res (getValueByPath N data path) (\<lambda>v.
       if truthy N v then processTemplate trueContent data
       else processTemplate falseContent data))"

definition if_block ::
  "'n number_ops \<Rightarrow> (string \<Rightarrow> 'n jsval \<Rightarrow> error + string) \<Rightarrow> 'n jsval \<Rightarrow> string \<times> string
     \<Rightarrow> error + string" where
  "if_block N processTemplate data = (\<lambda>(path, content).
     then_res (getValueByPath N data path) (\<lambda>v.
       if truthy N v then processTemplate content data else Inr []))"

definition processConditionals ::
  "'n number_ops \<Rightarrow> (string \<Rightarrow> 'n jsval \<Rightarrow> error + string) \<Rightarrow> string \<Rightarrow> 'n jsval
     \<Rightarrow> error + string" where
  "processConditionals N processTemplate template data =
     then_res (replace_all match_if_else (if_else_block N processTemplate data) template)
       (\<lambda>template'. replace_all match_if (if_block N processTemplate data) template')"

subsection \<open>Variable substitution\<close>

definition var_text :: "'n number_ops \<Rightarrow> 'n jsval \<Rightarrow> string" where
  "var_text N v =
     (if v = VUndefined \<or> v = VNull then []
      else if is_object v
        then (case json_stringify N v of Some t \<Rightarrow> t | None \<Rightarrow> ''undefined'')
      else to_string N v)"

definition var_block :: "'n number_ops \<Rightarrow> 'n jsval \<Rightarrow> string \<times> string \<Rightarrow> error + string" where
  \<comment> \<open>the replacer \<open>(match, path) => ...\<close> of \<open>processVariables\<close>\<close>
  "var_block N data = (\<lambda>(match, path).
     if starts_with ''#'' path \<or> starts_with ''/'' path then Inr match
     else then_res (getValueByPath N data path) (\<lambda>v. Inr (var_text N v)))"

definition processVariables :: "'n number_ops \<Rightarrow> string \<Rightarrow> 'n jsval \<Rightarrow> error + string" where
  "processVariables N template data = replace_all match_var (var_block N data) template"

subsection \<open>Helper invocation\<close>

text \<open>
  \<open>/(?:[^\s"]+|"[^"]*")+/g\<close>: a token is a longest sequence of characters that are neither
  white space nor a double quote and of closed double-quoted spans. Nothing follows the repetition,
  so its first, greedy attempt is the match. A double quote that is never closed ends the token
  before it and is itself skipped by the scan.
\<close>

function token_len :: "string \<Rightarrow> nat" where
  "token_len s =
     (case s of
        [] \<Rightarrow> 0
      | c # cs \<Rightarrow>
          if c = dquote
          then (let q = takeWhile (\<lambda>x. x \<noteq> dquote) cs
                in if length q < length cs
                   then length q + 2 + token_len (drop (length q + 1) cs)
                   else 0)
          else if is_space c then 0
          else 1 + token_len cs)"
  by pat_completeness auto
termination
  by (relation "measure length") auto

declare token_len.simps [simp del]

function match_tokens :: "string \<Rightarrow> string list" where
  \<comment> \<open>\<open>s.match(/(?:[^\s"]+|"[^"]*")+/g) || []\<close>\<close>
  "match_tokens s =
     (case s of
        [] \<Rightarrow> []
      | c # cs \<Rightarrow>
          if token_len s = 0 then match_tokens cs
          else take (token_len s) s # match_tokens (drop (token_len s) s))"
  by pat_completeness auto
termination
  by (relation "measure length") auto

declare match_tokens.simps [simp del]

definition parse_arg :: "'n number_ops \<Rightarrow> 'n jsval \<Rightarrow> string \<Rightarrow> error + 'n jsval" where
  \<comment> \<open>the body of \<open>parts.forEach\<close>: the value pushed for one part\<close>
  "parse_arg N data part =
     (if starts_with [dquote] part \<and> part \<noteq> [] \<and> last part = dquote
        then Inr (VStr (butlast (tl part)))
      else if part = ''true'' then Inr (VBool True)
      else if part = ''false'' then Inr (VBool False)
      else if \<not> is_nan N (string_to_number N part) then Inr (VNum (string_to_number N part))
      else getValueByPath N data part)"

definition parseHelperArgs :: "'n number_ops \<Rightarrow> string \<Rightarrow> 'n jsval \<Rightarrow> error + 'n jsval list" where
  "parseHelperArgs N argsString data = map_res (parse_arg N data) (match_tokens argsString)"

type_synonym 'n helper = "'n jsval list \<Rightarrow> error + 'n jsval"

record 'n engine =
  templates :: "string \<Rightarrow> 'n jsval option"
  helpers :: "string \<Rightarrow> 'n helper option"

definition helper_block ::
  "'n number_ops \<Rightarrow> 'n engine \<Rightarrow> 'n jsval \<Rightarrow> string \<times> string \<times> string \<Rightarrow> error + string" where
  \<comment> \<open>the replacer \<open>(match, helperName, argsString) => ...\<close> of \<open>processHelpers\<close>\<close>
  "helper_block N eng data = (\<lambda>(match, helperName, argsString).
     case helpers eng helperName of
       None \<Rightarrow> Inr match
     | Some helper \<Rightarrow>
         then_res (parseHelperArgs N argsString data) (\<lambda>args.
           then_res (helper args) (\<lambda>v. Inr (to_string N v))))"

definition processHelpers :: "'n number_ops \<Rightarrow> 'n engine \<Rightarrow> string \<Rightarrow> 'n jsval \<Rightarrow> error + string" where
  "processHelpers N eng template data = replace_all match_helper (helper_block N eng data) template"

section \<open>The engine\<close>

text \<open>
  The engine holds two registries. They are arbitrary maps here: the five helpers that the
  constructor registers (\<open>formatDate\<close>, \<open>capitalize\<close>, \<open>join\<close>, \<open>truncate\<close>, \<open>if\<close>) are
  entries like any other, and a helper is a function from the argument values to a value or an
  exception.

  \<open>processTemplate\<close> calls itself through the replacers of the loop and conditional passes, on
  text that may come from the data, so the recursion need not end. The first argument is the
  number of nested \<open>processTemplate\<close> frames that the call stack still holds; with none left the
  call throws \<open>RangeError\<close>.
\<close>

primrec processTemplate ::
  "nat \<Rightarrow> 'n number_ops \<Rightarrow> 'n engine \<Rightarrow> string \<Rightarrow> 'n jsval \<Rightarrow> error + string" where
  "processTemplate 0 N eng template data = Inl RangeError"
| "processTemplate (Suc depth) N eng template data =
     then_res (processLoops N (processTemplate depth N eng) template data) (\<lambda>result.
     then_res (processConditionals N (processTemplate depth N eng) result data) (\<lambda>result.
     then_res (processVariables N result data) (\<lambda>result.
     processHelpers N eng result data)))"

definition processTemplate_value ::
  "nat \<Rightarrow> 'n number_ops \<Rightarrow> 'n engine \<Rightarrow> 'n jsval \<Rightarrow> 'n jsval \<Rightarrow> error + string" where
  \<comment> \<open>\<open>processTemplate\<close> on what \<open>render\<close> found: \<open>template.replace\<close> is a function on strings
      only\<close>
  "processTemplate_value depth N eng html data =
     (case html of
        VStr template \<Rightarrow> processTemplate depth N eng template data
      | _ \<Rightarrow> if depth = 0 then Inl RangeError else Inl TypeError)"

definition registerTemplate :: "string \<Rightarrow> 'n jsval \<Rightarrow> 'n engine \<Rightarrow> 'n engine" where
  "registerTemplate name template eng = eng\<lparr>templates := (templates eng)(name \<mapsto> template)\<rparr>"

definition registerHelper :: "string \<Rightarrow> 'n helper \<Rightarrow> 'n engine \<Rightarrow> 'n engine" where
  "registerHelper name fn eng = eng\<lparr>helpers := (helpers eng)(name \<mapsto> fn)\<rparr>"

definition render ::
  "nat \<Rightarrow> 'n number_ops \<Rightarrow> 'n engine \<Rightarrow> string \<Rightarrow> 'n jsval \<Rightarrow> error + string" where
  "render depth N eng templateName data =
     (let template = (case templates eng templateName of Some t \<Rightarrow> t | None \<Rightarrow> VUndefined)
      in then_res
           (if truthy N template
            then then_res (prop_get N template ''html'') (\<lambda>h.
                   Inr (if truthy N h then h else template))
            else Inr (VStr templateName))
           (\<lambda>html. processTemplate_value depth N eng html data))"

text \<open>
  \<open>compile\<close> returns a closure over \<open>this\<close> and the template string. The closure reads the
  engine when it is called, so it is a function of the engine state at the time of the call.
\<close>

definition compile ::
  "string \<Rightarrow> nat \<Rightarrow> 'n number_ops \<Rightarrow> 'n engine \<Rightarrow> 'n jsval \<Rightarrow> error + string" where
  "compile templateString = (\<lambda>depth N eng data. processTemplate depth N eng templateString data)"

section \<open>A number representation for the examples\<close>

text \<open>
  Integers and \<open>NaN\<close> (\<open>None\<close>), with the decimal integers as the numeric strings. This is a
  part of the numbers of JavaScript, enough for the examples; the theorems do not depend on it.
\<close>

fun nat_of_digits :: "nat \<Rightarrow> string \<Rightarrow> nat" where
  "nat_of_digits acc [] = acc"
| "nat_of_digits acc (c # cs) = nat_of_digits (10 * acc + (of_char c - 48)) cs"

definition is_digit :: "char \<Rightarrow> bool" where
  "is_digit c \<longleftrightarrow> c \<in> set ''0123456789''"

definition int_of_string :: "string \<Rightarrow> int option" where
  "int_of_string s =
     (if s \<noteq> [] \<and> list_all is_digit s then Some (int (nat_of_digits 0 s))
      else if starts_with ''-'' s \<and> tl s \<noteq> [] \<and> list_all is_digit (tl s)
        then Some (- int (nat_of_digits 0 (tl s)))
      else None)"

definition string_of_int :: "int option \<Rightarrow> string" where
  "string_of_int n =
     (case n of
        None \<Rightarrow> ''NaN''
      | Some i \<Rightarrow> if i < 0 then ''-'' @ string_of_nat (nat (- i)) else string_of_nat (nat i))"

definition int_ops :: "int option number_ops" where
  "int_ops = \<lparr> of_index = (\<lambda>i. Some (int i)),
               num_to_string = string_of_int,
               num_falsy = (\<lambda>n. n = None \<or> n = Some 0),
               num_finite = (\<lambda>n. n \<noteq> None),
               is_nan = (\<lambda>n. n = None),
               string_to_number = int_of_string \<rparr>"

definition bare_engine :: "'n engine" where
  \<comment> \<open>an engine with no template and no helper registered\<close>
  "bare_engine = \<lparr> templates = Map.empty, helpers = Map.empty \<rparr>"

section \<open>The engine as an object\<close>

text \<open>
  An engine is an object. \<open>registerHelper\<close> writes to the map that \<open>this.helpers\<close> refers to,
  and the arrow function that \<open>compile\<close> returns closes over \<open>this\<close> and \<open>templateString\<close>: it
  holds the reference to the engine, not the engine's registries. A heap gives the state of the
  engine at each address; the methods are the functions above, applied at the address \<open>self\<close>.
  A compiled function is called in the heap of the time of the call.
\<close>

type_synonym 'n heap = "nat \<Rightarrow> 'n engine"

datatype compiled =
  Compiled nat string   \<comment> \<open>\<open>(data) => this.processTemplate(templateString, data)\<close>: the values of
      \<open>this\<close> and \<open>templateString\<close>\<close>

definition registerHelper_at :: "nat \<Rightarrow> string \<Rightarrow> 'n helper \<Rightarrow> 'n heap \<Rightarrow> 'n heap" where
  "registerHelper_at self name fn heap = heap(self := registerHelper name fn (heap self))"

definition compile_at :: "nat \<Rightarrow> string \<Rightarrow> 'n heap \<Rightarrow> compiled \<times> 'n heap" where
  "compile_at self templateString heap = (Compiled self templateString, heap)"

definition call_compiled ::
  "compiled \<Rightarrow> nat \<Rightarrow> 'n number_ops \<Rightarrow> 'n jsval \<Rightarrow> 'n heap \<Rightarrow> error + string" where
  "call_compiled f depth N data heap =
     (case f of Compiled self templateString \<Rightarrow>
        compile templateString depth N (heap self) data)"

section \<open>The passes over a store of context objects\<close>

text \<open>
  The definitions above pass the data context as a value. To say that rendering does not write
  to the context it is given, the functions that hand a context on are written once more over a
  store of context objects: \<open>data\<close> is the address of the context, reading it reads the store,
  and \<open>const itemData = {...}\<close> in the loop body puts a new object at a fresh address. The source
  has no other statement that creates or assigns to an object a template can reach. The passes
  that only read the context are the ones above, applied to the object at the address.

  A registered helper is code of the caller. It is called with values read from the context, and
  with them it can reach, and write to, the objects of the context; over the store a helper is
  therefore a function that may change the store.
\<close>

type_synonym 'n store = "'n jsval list"

definition deref :: "'n store \<Rightarrow> nat \<Rightarrow> 'n jsval" where
  "deref st a = (if a < length st then st ! a else VUndefined)"

definition alloc :: "'n jsval \<Rightarrow> 'n store \<Rightarrow> nat \<times> 'n store" where
  \<comment> \<open>a new object gets the next free address\<close>
  "alloc v st = (length st, st @ [v])"

definition then_st ::
  "(error + 'a) \<times> 's \<Rightarrow> ('a \<Rightarrow> 's \<Rightarrow> (error + 'b) \<times> 's) \<Rightarrow> (error + 'b) \<times> 's" where
  "then_st m f = (case m of (Inl e, st) \<Rightarrow> (Inl e, st) | (Inr x, st) \<Rightarrow> f x st)"

type_synonym 'n helper_st = "'n jsval list \<Rightarrow> 'n store \<Rightarrow> (error + 'n jsval) \<times> 'n store"

record 'n engine_st =
  templates_st :: "string \<Rightarrow> 'n jsval option"
  helpers_st :: "string \<Rightarrow> 'n helper_st option"

function replace_all_st ::
  "(string \<Rightarrow> ('g \<times> nat) option) \<Rightarrow> ('g \<Rightarrow> 's \<Rightarrow> (error + string) \<times> 's) \<Rightarrow> string \<Rightarrow> 's
     \<Rightarrow> (error + string) \<times> 's" where
  "replace_all_st m cb s st =
     (case m s of
        None \<Rightarrow>
          (case s of
             [] \<Rightarrow> (Inr [], st)
           | c # cs \<Rightarrow> then_st (replace_all_st m cb cs st) (\<lambda>r st'. (Inr (c # r), st')))
      | Some (g, len) \<Rightarrow>
          then_st (cb g st) (\<lambda>t st'.
            case s of
              [] \<Rightarrow> (Inr t, st')
            | c # cs \<Rightarrow>
                if len = 0
                then then_st (replace_all_st m cb cs st') (\<lambda>r st''. (Inr (t @ c # r), st''))
                else then_st (replace_all_st m cb (drop len s) st')
                       (\<lambda>r st''. (Inr (t @ r), st''))))"
  by pat_completeness auto
termination
  by (relation "measure (\<lambda>(m, cb, s, st). length s)") auto

declare replace_all_st.simps [simp del]

fun map_res_st ::
  "('a \<Rightarrow> 's \<Rightarrow> (error + 'b) \<times> 's) \<Rightarrow> 'a list \<Rightarrow> 's \<Rightarrow> (error + 'b list) \<times> 's" where
  "map_res_st f [] st = (Inr [], st)"
| "map_res_st f (x # xs) st =
     then_st (f x st) (\<lambda>y st'.
       then_st (map_res_st f xs st') (\<lambda>ys st''. (Inr (y # ys), st'')))"

definition loop_item_st ::
  "'n number_ops \<Rightarrow> (string \<Rightarrow> nat \<Rightarrow> 'n store \<Rightarrow> (error + string) \<times> 'n store) \<Rightarrow> nat \<Rightarrow> string
     \<Rightarrow> nat \<Rightarrow> nat \<times> 'n jsval \<Rightarrow> 'n store \<Rightarrow> (error + string) \<times> 'n store" where
  "loop_item_st N processTemplate_st data content len = (\<lambda>(index, item) st.
     let (scope, st') = alloc (itemData N (deref st data) item index len) st
     in case replace_all match_this_prop (this_prop_text N item) content of
          Inl e \<Rightarrow> (Inl e, st')
        | Inr itemContent \<Rightarrow>
            processTemplate_st (replace_this (this_replacement N item) [] itemContent) scope st')"

definition loop_block_st ::
  "'n number_ops \<Rightarrow> (string \<Rightarrow> nat \<Rightarrow> 'n store \<Rightarrow> (error + string) \<times> 'n store) \<Rightarrow> nat
     \<Rightarrow> string \<times> string \<Rightarrow> 'n store \<Rightarrow> (error + string) \<times> 'n store" where
  "loop_block_st N processTemplate_st data = (\<lambda>(path, content) st.
     case getValueByPath N (deref st data) path of
       Inl e \<Rightarrow> (Inl e, st)
     | Inr items \<Rightarrow>
         (case items of
            VArr xs \<Rightarrow>
              then_st (map_res_st (loop_item_st N processTemplate_st data content (length xs))
                         (zip [0..<length xs] xs) st)
                (\<lambda>parts st'. (Inr (concat parts), st'))
          | _ \<Rightarrow> (Inr [], st)))"

definition processLoops_st ::
  "'n number_ops \<Rightarrow> (string \<Rightarrow> nat \<Rightarrow> 'n store \<Rightarrow> (error + string) \<times> 'n store) \<Rightarrow> string \<Rightarrow> nat
     \<Rightarrow> 'n store \<Rightarrow> (error + string) \<times> 'n store" where
  "processLoops_st N processTemplate_st template data st =
     replace_all_st match_each (loop_block_st N processTemplate_st data) template st"

definition if_else_block_st ::
  "'n number_ops \<Rightarrow> (string \<Rightarrow> nat \<Rightarrow> 'n store \<Rightarrow> (error + string) \<times> 'n store) \<Rightarrow> nat
     \<Rightarrow> string \<times> string \<times> string \<Rightarrow> 'n store \<Rightarrow> (error + string) \<times> 'n store" where
  "if_else_block_st N processTemplate_st data = (\<lambda>(path, trueContent, falseContent) st.
     case getValueByPath N (deref st data) path of
       Inl e \<Rightarrow> (Inl e, st)
     | Inr v \<Rightarrow>
         if truthy N v then processTemplate_st trueContent data st
         else processTemplate_st falseContent data st)"

definition if_block_st ::
  "'n number_ops \<Rightarrow> (string \<Rightarrow> nat \<Rightarrow> 'n store \<Rightarrow> (error + string) \<times> 'n store) \<Rightarrow> nat
     \<Rightarrow> string \<times> string \<Rightarrow> 'n store \<Rightarrow> (error + string) \<times> 'n store" where
  "if_block_st N processTemplate_st data = (\<lambda>(path, content) st.
     case getValueByPath N (deref st data) path of
       Inl e \<Rightarrow> (Inl e, st)
     | Inr v \<Rightarrow> if truthy N v then processTemplate_st content data st else (Inr [], st))"

definition processConditionals_st ::
  "'n number_ops \<Rightarrow> (string \<Rightarrow> nat \<Rightarrow> 'n store \<Rightarrow> (error + string) \<times> 'n store) \<Rightarrow> string \<Rightarrow> nat
     \<Rightarrow> 'n store \<Rightarrow> (error + string) \<times> 'n store" where
  "processConditionals_st N processTemplate_st template data st =
     then_st (replace_all_st match_if_else (if_else_block_st N processTemplate_st data) template st)
       (\<lambda>template' st'.
          replace_all_st match_if (if_block_st N processTemplate_st data) template' st')"

definition helper_block_st ::
  "'n number_ops \<Rightarrow> 'n engine_st \<Rightarrow> nat \<Rightarrow> string \<times> string \<times> string \<Rightarrow> 'n store
     \<Rightarrow> (error + string) \<times> 'n store" where
  "helper_block_st N eng data = (\<lambda>(match, helperName, argsString) st.
     case helpers_st eng helperName of
       None \<Rightarrow> (Inr match, st)
     | Some helper \<Rightarrow>
         (case parseHelperArgs N argsString (deref st data) of
            Inl e \<Rightarrow> (Inl e, st)
          | Inr args \<Rightarrow> then_st (helper args st) (\<lambda>v st'. (Inr (to_string N v), st'))))"

definition processHelpers_st ::
  "'n number_ops \<Rightarrow> 'n engine_st \<Rightarrow> string \<Rightarrow> nat \<Rightarrow> 'n store \<Rightarrow> (error + string) \<times> 'n store" where
  "processHelpers_st N eng template data st =
     replace_all_st match_helper (helper_block_st N eng data) template st"

primrec processTemplate_st ::
  "nat \<Rightarrow> 'n number_ops \<Rightarrow> 'n engine_st \<Rightarrow> string \<Rightarrow> nat \<Rightarrow> 'n store
     \<Rightarrow> (error + string) \<times> 'n store" where
  "processTemplate_st 0 N eng template data st = (Inl RangeError, st)"
| "processTemplate_st (Suc depth) N eng template data st =
     then_st (processLoops_st N (processTemplate_st depth N eng) template data st)
       (\<lambda>result st.
     then_st (processConditionals_st N (processTemplate_st depth N eng) result data st)
       (\<lambda>result st.
     then_st (processVariables N result (deref st data), st)
       (\<lambda>result st.
     processHelpers_st N eng result data st)))"

definition render_st ::
  "nat \<Rightarrow> 'n number_ops \<Rightarrow> 'n engine_st \<Rightarrow> string \<Rightarrow> nat \<Rightarrow> 'n store
     \<Rightarrow> (error + string) \<times> 'n store" where
  "render_st depth N eng templateName data st =
     (let template = (case templates_st eng templateName of Some t \<Rightarrow> t | None \<Rightarrow> VUndefined)
      in case (if truthy N template
               then then_res (prop_get N template ''html'') (\<lambda>h.
                      Inr (if truthy N h then h else template))
               else Inr (VStr templateName)) of
           Inl e \<Rightarrow> (Inl e, st)
         | Inr html \<Rightarrow>
             (case html of
                VStr template \<Rightarrow> processTemplate_st depth N eng template data st
              | _ \<Rightarrow> (if depth = 0 then Inl RangeError else Inl TypeError, st)))"

text \<open>
  A helper that only reads its arguments leaves the store as it is. The five helpers that the
  constructor registers are of this kind. \<open>pure_engine\<close> is an engine all of whose helpers are.
\<close>

definition pure_helper :: "'n helper \<Rightarrow> 'n helper_st" where
  "pure_helper helper = (\<lambda>args st. (helper args, st))"

definition pure_engine :: "'n engine \<Rightarrow> 'n engine_st" where
  "pure_engine eng =
     \<lparr> templates_st = templates eng,
       helpers_st = (\<lambda>name. map_option pure_helper (helpers eng name)) \<rparr>"

section \<open>Notions used in the statements\<close>

text \<open>
  The position \<open>n\<close> of \<open>s\<close> is one at which \<open>s.replace\<close> with the global expression \<open>m\<close> looks
  for a match: the scan from the left, which goes on after each match it finds, arrives there.
  A position inside an earlier match is not reached.
\<close>

function scan_reaches :: "(string \<Rightarrow> ('g \<times> nat) option) \<Rightarrow> nat \<Rightarrow> string \<Rightarrow> bool" where
  "scan_reaches m n s =
     (if n = 0 then True
      else case s of
             [] \<Rightarrow> False
           | c # cs \<Rightarrow>
               (case m s of
                  None \<Rightarrow> scan_reaches m (n - 1) cs
                | Some (g, len) \<Rightarrow>
                    if len = 0 then scan_reaches m (n - 1) cs
                    else len \<le> n \<and> scan_reaches m (n - len) (drop len s)))"
  by pat_completeness auto
termination
  by (relation "measure (\<lambda>(m, n, s). length s)") auto

declare scan_reaches.simps [simp del]









definition bare_word :: "string \<Rightarrow> bool" where
  \<comment> \<open>a non-empty text without white space and without double quotes\<close>
  "bare_word t \<longleftrightarrow> t \<noteq> [] \<and> list_all (\<lambda>c. \<not> is_space c \<and> c \<noteq> dquote) t"

definition quoted_span :: "string \<Rightarrow> bool" where
  \<comment> \<open>a text between two double quotes that holds no double quote\<close>
  "quoted_span t \<longleftrightarrow>
     2 \<le> length t \<and> hd t = dquote \<and> last t = dquote \<and> dquote \<notin> set (butlast (tl t))"

definition grows :: "'n number_ops \<Rightarrow> nat \<Rightarrow> 'n store \<Rightarrow> 'n store \<Rightarrow> bool" where
  \<comment> \<open>\<open>st'\<close> is \<open>st\<close> with new objects after it, each the loop scope of an element of an array
      that a path resolves to in its enclosing context: the context at \<open>data\<close> or an earlier new
      object\<close>
  "grows N data st st' \<longleftrightarrow>
     (\<exists>new. st' = st @ new
        \<and> (\<forall>k<length new. \<exists>c path xs i.
              (c = data \<or> length st \<le> c) \<and> c < length st + k
              \<and> getValueByPath N (st' ! c) path = Inr (VArr xs) \<and> i < length xs
              \<and> new ! k = itemData N (st' ! c) (xs ! i) i (length xs)))"

definition respects_store ::
  "'n number_ops \<Rightarrow> (string \<Rightarrow> nat \<Rightarrow> 'n store \<Rightarrow> (error + string) \<times> 'n store)
     \<Rightarrow> (string \<Rightarrow> 'n jsval \<Rightarrow> error + string) \<Rightarrow> bool" where
  \<comment> \<open>a function over the store only adds loop scopes and returns what its counterpart over
      values returns on the object at the address\<close>
  "respects_store N f_st f \<longleftrightarrow>
     (\<forall>t a st. a < length st \<longrightarrow>
        grows N a st (snd (f_st t a st)) \<and> fst (f_st t a st) = f t (st ! a))"

definition store_relation :: "('n store \<Rightarrow> 'n store \<Rightarrow> bool) \<Rightarrow> bool" where
  \<comment> \<open>a relation between the store before and the store after that holds when nothing is
      done, that passes on through steps in sequence, and that holds when an object is added\<close>
  "store_relation R \<longleftrightarrow>
     (\<forall>s. R s s) \<and> (\<forall>a b c. R a b \<longrightarrow> R b c \<longrightarrow> R a c) \<and> (\<forall>s x. R s (s @ [x]))"

definition helpers_keep :: "('n store \<Rightarrow> 'n store \<Rightarrow> bool) \<Rightarrow> 'n engine_st \<Rightarrow> bool" where
  \<comment> \<open>every call of a registered helper keeps the relation\<close>
  "helpers_keep R eng \<longleftrightarrow>
     (\<forall>name helper args s. helpers_st eng name = Some helper \<longrightarrow> R s (snd (helper args s)))"

section \<open>Basic facts\<close>

lemma then_res_Inl [simp]: "then_res (Inl e) f = Inl e"
  by (simp add: then_res_def)

lemma then_res_Inr [simp]: "then_res (Inr x) f = f x"
  by (simp add: then_res_def)

lemma replace_all_Nil:
  "m [] = None \<Longrightarrow> replace_all m cb [] = Inr []"
  by (simp add: replace_all.simps)

lemma replace_all_skip:
  "m (c # cs) = None \<Longrightarrow>
   replace_all m cb (c # cs) = then_res (replace_all m cb cs) (\<lambda>r. Inr (c # r))"
  by (subst replace_all.simps) simp

lemma replace_all_match:
  "m s = Some (g, len) \<Longrightarrow> s \<noteq> [] \<Longrightarrow> 0 < len \<Longrightarrow>
   replace_all m cb s =
     then_res (cb g) (\<lambda>t. then_res (replace_all m cb (drop len s)) (\<lambda>r. Inr (t @ r)))"
  by (subst replace_all.simps) (cases s; cases "cb g"; simp)

subsection \<open>Character classes\<close>

lemma word_not_space: "is_word c \<Longrightarrow> \<not> is_space c"
  by (auto simp: is_word_def is_space_def)

lemma path_char_not_space: "path_char c \<Longrightarrow> \<not> is_space c"
  by (auto simp: path_char_def is_word_def is_space_def)

lemma brace_classes [simp]:
  "\<not> is_word CHR ''}''" "\<not> path_char CHR ''}''" "\<not> is_space CHR ''}''"
  "\<not> is_word CHR ''{''" "\<not> path_char CHR ''{''" "\<not> is_space CHR ''{''"
  by (simp_all add: is_word_def path_char_def is_space_def)

subsection \<open>Prefixes and scans\<close>

lemma starts_with_append [simp]: "starts_with lit (lit @ r)"
  by (simp add: starts_with_def)

lemma starts_with_Nil [simp]: "starts_with [] s"
  by (simp add: starts_with_def)

lemma starts_with_Cons_Cons [simp]:
  "starts_with (a # lit) (b # s) \<longleftrightarrow> a = b \<and> starts_with lit s"
  by (auto simp: starts_with_def)

lemma starts_with_Cons_Nil [simp]: "\<not> starts_with (a # lit) []"
  by (simp add: starts_with_def)

lemma takeWhile_stop:
  "\<forall>x\<in>set xs. P x \<Longrightarrow> \<not> P y \<Longrightarrow> takeWhile P (xs @ y # ys) = xs"
  by (induction xs) auto

lemma dropWhile_stop:
  "\<forall>x\<in>set xs. P x \<Longrightarrow> \<not> P y \<Longrightarrow> dropWhile P (xs @ y # ys) = y # ys"
  by (induction xs) auto

subsection \<open>Dotted paths\<close>

lemma split_on_not_Nil [simp]: "split_on c xs \<noteq> []"
  by (induction xs) (auto split: list.splits)

lemma split_on_chars:
  "x \<in> set xs \<Longrightarrow> x = c \<or> (\<exists>seg \<in> set (split_on c xs). x \<in> set seg)"
  by (induction xs) (auto split: list.splits)

lemma dotted_path_chars: "dotted_path p \<Longrightarrow> x \<in> set p \<Longrightarrow> path_char x"
  using split_on_chars [of x p "CHR ''.''"]
  by (auto simp: dotted_path_def path_char_def list_all_iff)

lemma dotted_path_hd: "dotted_path p \<Longrightarrow> \<exists>x xs. p = x # xs \<and> is_word x"
  by (cases p) (auto simp: dotted_path_def split: list.splits if_splits)


subsection \<open>First occurrences\<close>

lemma find_first_here: "lit \<noteq> [] \<Longrightarrow> find_first lit (lit @ r) = Some ([], r)"
  by (cases lit) simp_all

lemma find_first_None_drop: "find_first lit s = None \<Longrightarrow> lit \<noteq> [] \<Longrightarrow> find_first lit (drop n s) = None"
proof (induction s arbitrary: n)
  case Nil
  then show ?case by simp
next
  case (Cons c cs)
  then show ?case by (cases n) (auto split: if_splits)
qed

lemma no_straddle:
  assumes "CHR ''{'' \<notin> set body" "body \<noteq> []" "starts_with ''{{'' Y" "X \<noteq> []"
    and "starts_with (''{{'' @ body) (X @ Y)"
  shows "starts_with (''{{'' @ body) X"
proof -
  obtain Y' where Y: "Y = CHR ''{'' # CHR ''{'' # Y'"
    using assms(3) by (cases Y; cases "tl Y") auto
  obtain b body' where body: "body = b # body'" "b \<noteq> CHR ''{''"
    using assms(1,2) by (cases body) auto
  show ?thesis
  proof (cases X)
    case Nil
    with assms(4) show ?thesis by simp
  next
    case (Cons x xs)
    show ?thesis
    proof (cases xs)
      case Nil
      with Cons assms(5) Y body show ?thesis by simp
    next
      case (Cons x2 xs2)
      from assms(5) \<open>X = x # xs\<close> Cons have x: "x = CHR ''{''" "x2 = CHR ''{''"
        and t: "take (length body) (xs2 @ Y) = body"
        by (simp_all add: starts_with_def)
      have "length body \<le> length xs2"
      proof (rule ccontr)
        assume "\<not> length body \<le> length xs2"
        then have "take (length body) (xs2 @ Y) = xs2 @ take (length body - length xs2) Y"
          and "0 < length body - length xs2" by simp_all
        then have "CHR ''{'' \<in> set (take (length body) (xs2 @ Y))"
          using Y by (cases "length body - length xs2") auto
        with t assms(1) show False by simp
      qed
      with t have "take (length body) xs2 = body" by simp
      with x \<open>X = x # xs\<close> Cons show ?thesis by (simp add: starts_with_def)
    qed
  qed
qed

lemma find_first_append:
  assumes "CHR ''{'' \<notin> set body" "body \<noteq> []" "starts_with ''{{'' Y"
    and "find_first (''{{'' @ body) X = None"
  shows "find_first (''{{'' @ body) (X @ Y)
           = map_option (\<lambda>(b, a). (X @ b, a)) (find_first (''{{'' @ body) Y)"
  using assms(4)
proof (induction X)
  case Nil
  show ?case by (simp add: option.map_ident split_def)
next
  case (Cons x xs)
  from Cons.prems have ns: "\<not> starts_with (''{{'' @ body) (x # xs)"
    and n: "find_first (''{{'' @ body) xs = None"
    by (auto split: if_splits)
  have "\<not> starts_with (''{{'' @ body) ((x # xs) @ Y)"
    using no_straddle [OF assms(1-3), of "x # xs"] ns by blast
  then show ?case
    using Cons.IH [OF n] by (auto simp: option.map_comp comp_def split_def)
qed

lemma replace_all_no_match:
  "(\<And>n. m (drop n s) = None) \<Longrightarrow> replace_all m cb s = Inr s"
proof (induction s)
  case Nil
  then show ?case using replace_all_Nil [of m] by simp
next
  case (Cons c cs)
  have "m (c # cs) = None" using Cons.prems [of 0] by simp
  moreover have "replace_all m cb cs = Inr cs"
    using Cons.IH Cons.prems [of "Suc _"] by simp
  ultimately show ?case by (simp add: replace_all_skip)
qed

subsection \<open>Blocks\<close>




lemma find_first_None_not_here:
  "find_first lit s = None \<Longrightarrow> lit \<noteq> [] \<Longrightarrow> \<not> starts_with lit s"
  by (cases s; cases lit) (auto split: if_splits)

lemma match_open_suffix: "match_open kw s = Some (p, r) \<Longrightarrow> \<exists>n. r = drop n s"
proof -
  assume a: "match_open kw s = Some (p, r)"
  have 1: "\<And>P xs. \<exists>n. dropWhile P xs = drop n xs"
    by (metis dropWhile_eq_drop)
  from a have "r = drop 2 (dropWhile path_char (dropWhile is_space (drop (length kw) s)))"
    by (auto simp: match_open_def Let_def split: if_splits)
  moreover obtain n1 where "dropWhile is_space (drop (length kw) s) = drop n1 (drop (length kw) s)"
    using 1 by blast
  moreover obtain n2 where "dropWhile path_char (drop n1 (drop (length kw) s))
      = drop n2 (drop n1 (drop (length kw) s))"
    using 1 by blast
  ultimately show ?thesis by (auto simp: drop_drop simp del: drop_drop [symmetric])
qed

lemma match_if_else_needs_else:
  assumes "find_first ''{{else}}'' s = None"
  shows "match_if_else s = None"
proof (cases "match_open ''{{#if'' s")
  case None
  then show ?thesis by (simp add: match_if_else_def)
next
  case (Some pr)
  obtain p r where pr: "pr = (p, r)" by (cases pr)
  obtain n where "r = drop n s"
    using match_open_suffix Some pr by blast
  then have "find_first ''{{else}}'' r = None"
    using find_first_None_drop [OF assms] by simp
  with Some pr show ?thesis by (simp add: match_if_else_def)
qed

lemma match_if_needs_open:
  assumes "find_first ''{{#if'' s = None"
  shows "match_if s = None"
proof -
  have "\<not> starts_with ''{{#if'' s"
    using find_first_None_not_here [OF assms] by simp
  then show ?thesis by (simp add: match_if_def match_open_def Let_def)
qed

lemma find_first_skip_plain:
  "\<forall>c\<in>set h. c \<noteq> a \<Longrightarrow> find_first (a # lit) Y = None \<Longrightarrow> find_first (a # lit) (h @ Y) = None"
  by (induction h) auto

lemma no_else_in_if_block:
  assumes "dotted_path p" "list_all is_space ws"
    and "find_first ''{{else}}'' X = None"
  shows "find_first ''{{else}}'' (''{{#if'' @ ws @ p @ ''}}'' @ X @ ''{{/if}}'') = None"
proof -
  have 1: "find_first ''{{else}}'' (X @ ''{{/if}}'') = None"
    using find_first_append [of "''else}}''" "''{{/if}}''" X] assms(3) by simp
  have "CHR ''{'' \<notin> set p"
    using dotted_path_chars [OF assms(1), of "CHR ''{''"] by auto
  moreover have "CHR ''{'' \<notin> set ws"
    using assms(2) by (auto simp: list_all_iff)
  ultimately have "\<forall>c\<in>set (''#if'' @ ws @ p @ ''}}''). c \<noteq> CHR ''{''"
    by auto
  then have "find_first ''{{else}}'' ((''#if'' @ ws @ p @ ''}}'') @ X @ ''{{/if}}'') = None"
    using 1 by (rule find_first_skip_plain)
  then show ?thesis by simp
qed

lemma match_Nil [simp]:
  "match_each [] = None" "match_if [] = None" "match_if_else [] = None" "match_var [] = None"
  "match_this_prop [] = None" "match_helper [] = None"
  by (simp_all add: match_each_def match_if_def match_if_else_def match_open_def match_var_def
      match_this_prop_def match_helper_def)

lemma replace_all_whole:
  assumes "m s = Some (g, length s)" "s \<noteq> []" "m [] = None"
  shows "replace_all m cb s = cb g"
  using replace_all_match [of m s g "length s" cb] assms
  by (cases "cb g") (simp_all add: replace_all_Nil)

subsection \<open>Scanning a concatenation\<close>

lemma then_res_assoc:
  "then_res (then_res m f) g = then_res m (\<lambda>x. then_res (f x) g)"
  by (cases m) simp_all

lemma replace_all_append:
  assumes same: "\<And>n. n < length a \<Longrightarrow> m (drop n a @ b) = m (drop n a)"
    and inside: "\<And>n g len. m (drop n a) = Some (g, len) \<Longrightarrow> 0 < len \<and> len \<le> length a - n"
  shows "replace_all m cb (a @ b)
           = then_res (replace_all m cb a) (\<lambda>ra.
               then_res (replace_all m cb b) (\<lambda>rb. Inr (ra @ rb)))"
  using assms
proof (induction "length a" arbitrary: a rule: less_induct)
  case less
  show ?case
  proof (cases a)
    case Nil
    have "m [] = None"
      using less.prems(2) [of 0] Nil by (cases "m []") auto
    then show ?thesis
      using Nil by (cases "replace_all m cb b") (simp_all add: replace_all_Nil)
  next
    case (Cons c cs)
    have m0: "m (a @ b) = m a"
      using less.prems(1) [of 0] Cons by simp
    show ?thesis
    proof (cases "m a")
      case None
      have IH: "replace_all m cb (cs @ b)
           = then_res (replace_all m cb cs) (\<lambda>ra.
               then_res (replace_all m cb b) (\<lambda>rb. Inr (ra @ rb)))"
      proof (rule less.hyps)
        show "length cs < length a" using Cons by simp
        show "m (drop n cs @ b) = m (drop n cs)" if "n < length cs" for n
          using less.prems(1) [of "Suc n"] that Cons by simp
        show "0 < len \<and> len \<le> length cs - n" if "m (drop n cs) = Some (g, len)" for n g len
          using less.prems(2) [of "Suc n" g len] that Cons by simp
      qed
      have 1: "replace_all m cb (a @ b)
          = then_res (replace_all m cb (cs @ b)) (\<lambda>r. Inr (c # r))"
        using replace_all_skip [of m c "cs @ b" cb] m0 None Cons by simp
      have 2: "replace_all m cb a = then_res (replace_all m cb cs) (\<lambda>r. Inr (c # r))"
        using replace_all_skip [of m c cs cb] None Cons by simp
      show ?thesis
        unfolding 1 2 IH
        by (cases "replace_all m cb cs"; cases "replace_all m cb b") simp_all
    next
      case (Some gl)
      obtain g len where gl: "gl = (g, len)" by (cases gl)
      have len: "0 < len" "len \<le> length a"
        using less.prems(2) [of 0 g len] Some gl by simp_all
      have IH: "replace_all m cb (drop len a @ b)
           = then_res (replace_all m cb (drop len a)) (\<lambda>ra.
               then_res (replace_all m cb b) (\<lambda>rb. Inr (ra @ rb)))"
      proof (rule less.hyps)
        show "length (drop len a) < length a" using Cons len by simp
        show "m (drop n (drop len a) @ b) = m (drop n (drop len a))"
          if "n < length (drop len a)" for n
          using less.prems(1) [of "n + len"] that by (simp add: add.commute)
        show "0 < len' \<and> len' \<le> length (drop len a) - n"
          if "m (drop n (drop len a)) = Some (g', len')" for n g' len'
          using less.prems(2) [of "n + len" g' len'] that by (simp add: add.commute)
      qed
      have 1: "replace_all m cb (a @ b)
          = then_res (cb g) (\<lambda>t. then_res (replace_all m cb (drop len a @ b))
              (\<lambda>r. Inr (t @ r)))"
      proof -
        have "replace_all m cb (a @ b)
          = then_res (cb g) (\<lambda>t. then_res (replace_all m cb (drop len (a @ b)))
              (\<lambda>r. Inr (t @ r)))"
          by (rule replace_all_match) (use m0 Some gl Cons len in simp_all)
        then show ?thesis using len by simp
      qed
      have 2: "replace_all m cb a
          = then_res (cb g) (\<lambda>t. then_res (replace_all m cb (drop len a)) (\<lambda>r. Inr (t @ r)))"
        using replace_all_match [of m a g len cb] Some gl Cons len by simp
      show ?thesis
        unfolding 1 2 IH
        by (cases "cb g"; cases "replace_all m cb (drop len a)"; cases "replace_all m cb b")
          simp_all
    qed
  qed
qed

lemma length_takeWhile_dropWhile:
  "length xs = length (takeWhile P xs) + length (dropWhile P xs)"
  by (induction xs) auto

lemma closing_length: "starts_with ''}}'' r \<Longrightarrow> 2 \<le> length r"
  by (cases r; cases "tl r") auto

lemma replace_all_found:
  "m s = Some (g, len) \<Longrightarrow>
   replace_all m cb s
     = then_res (cb g) (\<lambda>t.
         case s of
           [] \<Rightarrow> Inr t
         | c # cs \<Rightarrow>
             then_res (replace_all m cb (if len = 0 then cs else drop len s))
               (\<lambda>r. Inr (t @ (if len = 0 then [c] else []) @ r)))"
  by (subst replace_all.simps) (cases s; cases "len = 0"; simp)

subsection \<open>Matches depend on the matched text only\<close>

text \<open>
  A match at the start of a text is also the match when more text follows, and a match that ends
  inside a text is the match of that text alone: the expressions are anchored at their start and
  every one of them ends with a literal.
\<close>

lemma tw_ext:
  "dropWhile P xs \<noteq> [] \<Longrightarrow>
   takeWhile P (xs @ ys) = takeWhile P xs \<and> dropWhile P (xs @ ys) = dropWhile P xs @ ys"
  by (induction xs) auto

lemma tw_prefix:
  "length (takeWhile P (xs @ ys)) < length xs \<Longrightarrow>
   takeWhile P (xs @ ys) = takeWhile P xs \<and> dropWhile P (xs @ ys) = dropWhile P xs @ ys"
  by (induction xs) auto

lemma starts_with_extend:
  assumes "starts_with lit r"
  shows "starts_with lit (r @ y)"
proof -
  have "length (take (length lit) r) = length lit"
    using assms by (simp add: starts_with_def)
  then have "length lit \<le> length r" by simp
  then show ?thesis
    using assms by (simp add: starts_with_def)
qed

lemma starts_with_restrict:
  "starts_with lit (r @ y) \<Longrightarrow> length lit \<le> length r \<Longrightarrow> starts_with lit r"
  by (simp add: starts_with_def)



















subsection \<open>The text before a match that the scan reaches\<close>

lemma scan_reaches_0 [simp]: "scan_reaches m 0 s"
  by (simp add: scan_reaches.simps)

lemma scan_reaches_skip:
  "m (c # cs) = None \<Longrightarrow> scan_reaches m (Suc n) (c # cs) = scan_reaches m n cs"
  by (subst scan_reaches.simps) simp

lemma scan_reaches_match:
  "m (c # cs) = Some (g, len) \<Longrightarrow> 0 < len \<Longrightarrow>
   scan_reaches m (Suc n) (c # cs) = (len \<le> Suc n \<and> scan_reaches m (Suc n - len) (drop len (c # cs)))"
  by (subst scan_reaches.simps) simp

lemma replace_all_reaches:
  assumes ext: "\<And>x y r. m x = Some r \<Longrightarrow> m (x @ y) = Some r"
    and restr: "\<And>x y g len. m (x @ y) = Some (g, len) \<Longrightarrow> len \<le> length x \<Longrightarrow> m x = Some (g, len)"
    and inside: "\<And>x g len. m x = Some (g, len) \<Longrightarrow> 0 < len \<and> len \<le> length x"
    and reach: "scan_reaches m (length a) (a @ b)"
  shows "replace_all m cb (a @ b)
           = then_res (replace_all m cb a) (\<lambda>ra.
               then_res (replace_all m cb b) (\<lambda>rb. Inr (ra @ rb)))"
  using reach
proof (induction "length a" arbitrary: a rule: less_induct)
  case less
  have mNil: "m [] = None"
    using inside [of "[]"] by (cases "m []") auto
  show ?case
  proof (cases a)
    case Nil
    then show ?thesis
      using mNil by (cases "replace_all m cb b") (simp_all add: replace_all_Nil)
  next
    case (Cons c cs)
    show ?thesis
    proof (cases "m (a @ b)")
      case None
      then have ma: "m a = None"
        using ext [of a _ b] by (cases "m a") auto
      have "scan_reaches m (length cs) (cs @ b)"
        using less.prems None Cons scan_reaches_skip [of m c "cs @ b" "length cs"] by simp
      then have IH: "replace_all m cb (cs @ b)
           = then_res (replace_all m cb cs) (\<lambda>ra.
               then_res (replace_all m cb b) (\<lambda>rb. Inr (ra @ rb)))"
        using less.hyps [of cs] Cons by simp
      have 1: "replace_all m cb (a @ b)
          = then_res (replace_all m cb (cs @ b)) (\<lambda>r. Inr (c # r))"
        using replace_all_skip [of m c "cs @ b" cb] None Cons by simp
      have 2: "replace_all m cb a = then_res (replace_all m cb cs) (\<lambda>r. Inr (c # r))"
        using replace_all_skip [of m c cs cb] ma Cons by simp
      show ?thesis
        unfolding 1 2 IH
        by (cases "replace_all m cb cs"; cases "replace_all m cb b") simp_all
    next
      case (Some gl)
      obtain g len where gl: "gl = (g, len)" by (cases gl)
      have pos: "0 < len"
        using inside [of "a @ b" g len] Some gl by simp
      have r: "len \<le> length a \<and> scan_reaches m (length a - len) (drop len (a @ b))"
        using less.prems Some gl Cons pos
          scan_reaches_match [of m c "cs @ b" g len "length cs"] by simp
      then have len: "len \<le> length a" by simp
      have ma: "m a = Some (g, len)"
        using restr [of a b g len] Some gl len by simp
      have "scan_reaches m (length (drop len a)) (drop len a @ b)"
        using r len by simp
      then have IH: "replace_all m cb (drop len a @ b)
           = then_res (replace_all m cb (drop len a)) (\<lambda>ra.
               then_res (replace_all m cb b) (\<lambda>rb. Inr (ra @ rb)))"
        using less.hyps [of "drop len a"] Cons pos by simp
      have 1: "replace_all m cb (a @ b)
          = then_res (cb g) (\<lambda>t. then_res (replace_all m cb (drop len a @ b))
              (\<lambda>r. Inr (t @ r)))"
      proof -
        have "replace_all m cb (a @ b)
          = then_res (cb g) (\<lambda>t. then_res (replace_all m cb (drop len (a @ b)))
              (\<lambda>r. Inr (t @ r)))"
          by (rule replace_all_match) (use Some gl Cons pos in simp_all)
        then show ?thesis using len by simp
      qed
      have 2: "replace_all m cb a
          = then_res (cb g) (\<lambda>t. then_res (replace_all m cb (drop len a)) (\<lambda>r. Inr (t @ r)))"
        using replace_all_match [of m a g len cb] ma Cons pos by simp
      show ?thesis
        unfolding 1 2 IH
        by (cases "cb g"; cases "replace_all m cb (drop len a)"; cases "replace_all m cb b")
          simp_all
    qed
  qed
qed

subsection \<open>Replacers that agree on the matches\<close>



text \<open>A template without an opening marker holds no block and no variable reference.\<close>

lemma match_needs_open:
  "match_each s \<noteq> None \<Longrightarrow> starts_with ''{{#'' s"
  "match_if s \<noteq> None \<Longrightarrow> starts_with ''{{#'' s"
  "match_if_else s \<noteq> None \<Longrightarrow> starts_with ''{{#'' s"
  "match_var s \<noteq> None \<Longrightarrow> starts_with ''{{'' s"
  by (auto simp: match_each_def match_if_def match_if_else_def match_open_def match_var_def
      Let_def starts_with_def split: if_splits option.splits dest: arg_cong [where f = "take 3"])

lemma no_open_no_match:
  "\<not> starts_with ''{{#'' s \<Longrightarrow> match_each s = None"
  "\<not> starts_with ''{{#'' s \<Longrightarrow> match_if s = None"
  "\<not> starts_with ''{{#'' s \<Longrightarrow> match_if_else s = None"
  "\<not> starts_with ''{{'' s \<Longrightarrow> match_var s = None"
  using match_needs_open [of s] by blast+

lemma no_second_open:
  assumes "CHR ''{'' \<notin> set body" "0 < n"
  shows "\<not> starts_with ''{{'' (drop n (CHR ''{'' # CHR ''{'' # body))"
proof (cases n)
  case 0
  with assms(2) show ?thesis by simp
next
  case (Suc k)
  show ?thesis
  proof (cases k)
    case 0
    with Suc assms(1) show ?thesis by (cases body) auto
  next
    case (Suc j)
    have "starts_with ''{{'' r \<Longrightarrow> CHR ''{'' \<in> set r" for r
      by (cases r) auto
    moreover have "set (drop j body) \<subseteq> set body"
      by (rule set_drop_subset)
    ultimately show ?thesis
      using assms(1) \<open>n = Suc k\<close> Suc by auto
  qed
qed

section \<open>Compiled templates and registered templates\<close>

text \<open>
  C5. For a template string \<open>t\<close> that is not a registered template name, the compiled render
  function applied to \<open>d\<close> returns what \<open>render(t, d)\<close> returns (the same string, or the same
  exception).
\<close>

theorem compile_equals_render:
  "templates eng t = None \<Longrightarrow> compile t depth N eng d = render depth N eng t d"
  by (simp add: compile_def render_def processTemplate_value_def)

theorem compile_equals_render_witness:
  "templates \<lparr>templates = Map.empty, helpers = Map.empty\<rparr> ''Hello {{name}}!'' = None \<and>
   compile ''Hello {{name}}!'' 1 int_ops \<lparr>templates = Map.empty, helpers = Map.empty\<rparr>
       (VObj [(''name'', VStr ''Ada'')])
     = render 1 int_ops \<lparr>templates = Map.empty, helpers = Map.empty\<rparr> ''Hello {{name}}!''
         (VObj [(''name'', VStr ''Ada'')])"
  using compile_equals_render
    [of "\<lparr>templates = Map.empty, helpers = Map.empty\<rparr>" "''Hello {{name}}!''"
      1 int_ops "VObj [(''name'', VStr ''Ada'')]"]
  by simp

text \<open>
  C10. For a name registered to a template object, \<open>render\<close> runs the pipeline on the object's
  \<open>html\<close> string when that string is truthy (non-empty). When \<open>html\<close> is falsy, in particular
  the empty string, \<open>render\<close> passes the template object itself on as the markup; the result is
  then not the empty string (the call throws \<open>TypeError\<close>, an object having no \<open>replace\<close>).
\<close>

theorem render_registered_object:
  assumes "templates eng name = Some (VObj kvs)"
  shows "(\<forall>s. lookup_own kvs ''html'' = VStr s \<and> s \<noteq> [] \<longrightarrow>
            render depth N eng name d = processTemplate depth N eng s d)
       \<and> (\<not> truthy N (lookup_own kvs ''html'') \<longrightarrow>
            render depth N eng name d = processTemplate_value depth N eng (VObj kvs) d
          \<and> render (Suc depth) N eng name d = Inl TypeError
          \<and> render depth N eng name d \<noteq> Inr [])"
  using assms by (simp add: render_def processTemplate_value_def)

theorem render_registered_object_witness:
  "templates \<lparr>templates = [''t'' \<mapsto> VObj [(''html'', VStr [])]], helpers = Map.empty\<rparr> ''t''
     = Some (VObj [(''html'', VStr [])])
   \<and> \<not> truthy int_ops (lookup_own [(''html'', VStr [])] ''html'')
   \<and> render 1 int_ops \<lparr>templates = [''t'' \<mapsto> VObj [(''html'', VStr [])]], helpers = Map.empty\<rparr>
         ''t'' (VObj []) = Inl TypeError
   \<and> templates \<lparr>templates = [''t'' \<mapsto> VObj [(''html'', VStr ''Hi'')]], helpers = Map.empty\<rparr> ''t''
     = Some (VObj [(''html'', VStr ''Hi'')])
   \<and> lookup_own [(''html'', VStr ''Hi'')] ''html'' = VStr ''Hi'' \<and> ''Hi'' \<noteq> []
   \<and> render 1 int_ops \<lparr>templates = [''t'' \<mapsto> VObj [(''html'', VStr ''Hi'')]], helpers = Map.empty\<rparr>
         ''t'' (VObj [])
       = processTemplate 1 int_ops
           \<lparr>templates = [''t'' \<mapsto> VObj [(''html'', VStr ''Hi'')]], helpers = Map.empty\<rparr>
           ''Hi'' (VObj [])"
  using render_registered_object
    [of "\<lparr>templates = [''t'' \<mapsto> VObj [(''html'', VStr [])]], helpers = Map.empty\<rparr>" "''t''"
      "[(''html'', VStr [])]" 0 int_ops "VObj []"]
    render_registered_object
    [of "\<lparr>templates = [''t'' \<mapsto> VObj [(''html'', VStr ''Hi'')]], helpers = Map.empty\<rparr>" "''t''"
      "[(''html'', VStr ''Hi'')]" 1 int_ops "VObj []"]
  by (simp add: lookup_own_def)

section \<open>Missing paths\<close>

text \<open>Path resolution itself never throws: the guard \<open>current &&\<close> stops at the first absent
  step.\<close>

lemma path_step_total: "\<exists>v. path_step N current key = Inr v"
  by (cases current) (simp_all add: path_step_def)

lemma reduce_path_step_total: "\<exists>v. reduce_res (path_step N) keys acc = Inr v"
proof (induction keys arbitrary: acc)
  case Nil
  show ?case by simp
next
  case (Cons key keys)
  obtain v where "path_step N acc key = Inr v"
    using path_step_total by blast
  with Cons.IH [of v] show ?case by simp
qed

lemma getValueByPath_total: "\<exists>v. getValueByPath N obj path = Inr v"
  unfolding getValueByPath_def by (rule reduce_path_step_total)

text \<open>
  C1. Rendering is claimed never to throw on a missing path, also for a property reference to
  the current item of a loop and for \<open>null\<close> elements. The replacer for \<open>{{this.prop}}\<close> reads
  \<open>item[prop]\<close> without the guard that \<open>getValueByPath\<close> has: on a \<open>null\<close> element it throws.
\<close>

theorem each_null_item_this_prop_throws:
  "processTemplate (Suc depth) N eng ''{{#each items}}{{this.name}}{{/each}}''
     (VObj [(''items'', VArr [VNull])]) = Inl TypeError"
proof -
  have m: "match_each ''{{#each items}}{{this.name}}{{/each}}''
             = Some ((''items'', ''{{this.name}}''), 37)"
    by code_simp
  have m': "match_this_prop ''{{this.name}}'' = Some (''name'', 13)"
    by code_simp
  have g: "getValueByPath N (VObj [(''items'', VArr [VNull])]) ''items'' = Inr (VArr [VNull])"
    by (simp add: getValueByPath_def path_step_def lookup_own_def)
  show ?thesis
    by (simp add: processLoops_def replace_all_match [where m = match_each, OF m] loop_block_def
        g loop_item_def replace_all_match [where m = match_this_prop, OF m'] this_prop_text_def)
qed

section \<open>Loop blocks\<close>

lemma map_of_set_prop: "map_of (set_prop k v kvs) = (map_of kvs)(k \<mapsto> v)"
  by (induction kvs) auto


lemma processTemplate_Nil [simp]: "processTemplate (Suc depth) N eng [] d = Inr []"
  by (simp add: processLoops_def processConditionals_def processVariables_def processHelpers_def
      replace_all_Nil)











text \<open>
  The hypothesis on the content is needed: the content of a block ends at the first closing
  marker, so a loop inside a loop body is cut there. The outer loop below ends at the closing
  marker of the inner one; its body is \<open>[{{#each this.ys}}{{this}}\<close>, and \<open>]{{/each}}\<close> is left
  as text.
\<close>

lemma nested_each_example:
  "processTemplate 3 int_ops bare_engine
       ''{{#each xs}}[{{#each this.ys}}{{this}}{{/each}}]{{/each}}''
       (VObj [(''xs'', VArr [VObj [(''ys'', VArr [VNum (Some 1), VNum (Some 2)])]])])
     = Inr (''[{{#each this.ys}}{'' @ [dquote] @ ''ys'' @ [dquote] @ '':[1,2]}]{{/each}}'')"
  by code_simp

section \<open>Conditional blocks\<close>




text \<open>
  The hypotheses on the contents are needed: the first branch of the if/else expression runs to
  the first \<open>{{else}}\<close>, also across a closing marker. An if-only block that an if/else block
  follows is therefore taken as the opening of that block: below, \<open>a\<close> alone decides, and for a
  falsy \<open>a\<close> the else-branch of the second block is rendered.
\<close>

lemma if_then_if_else_example:
  "processTemplate 2 int_ops bare_engine ''{{#if a}}X{{/if}} {{#if b}}Y{{else}}Z{{/if}}''
       (VObj [(''a'', VBool False), (''b'', VBool True)]) = Inr ''Z''
   \<and> processTemplate 2 int_ops bare_engine ''{{#if a}}X{{/if}} {{#if b}}Y{{else}}Z{{/if}}''
       (VObj [(''a'', VBool True), (''b'', VBool True)]) = Inr ''X{{/if}} {{#if b}}Y''"
  by code_simp

section \<open>Variable references\<close>

lemma dotted_path_Nil [simp]: "\<not> dotted_path []"
  by (simp add: dotted_path_def)

lemma closing_append:
  "r \<noteq> [] \<Longrightarrow> starts_with ''}}'' (r @ CHR ''{'' # Y) \<longleftrightarrow> starts_with ''}}'' r"
  by (cases r; cases "tl r") auto

lemma match_var_inside:
  assumes "match_var a = Some (g, len)"
  shows "0 < len \<and> len \<le> length a"
proof -
  let ?p = "takeWhile path_char (drop 2 a)"
  let ?r = "dropWhile path_char (drop 2 a)"
  from assms have 1: "starts_with ''{{'' a" "starts_with ''}}'' ?r" "len = length ?p + 4"
    by (auto simp: match_var_def Let_def split: if_splits)
  have "length (drop 2 a) = length ?p + length ?r"
    by (metis length_append takeWhile_dropWhile_id)
  moreover have "2 \<le> length a"
    using 1(1) by (cases a; cases "tl a") auto
  ultimately show ?thesis
    using closing_length [OF 1(2)] 1(3) by simp
qed

lemma match_var_append:
  assumes "a \<noteq> []" "starts_with ''{{'' Y"
  shows "match_var (a @ Y) = match_var a"
proof -
  obtain Y' where Y: "Y = CHR ''{'' # CHR ''{'' # Y'"
    using assms(2) by (cases Y; cases "tl Y") auto
  obtain x xs where a: "a = x # xs"
    using assms(1) by (cases a) auto
  show ?thesis
  proof (cases xs)
    case Nil
    then show ?thesis using a Y by (simp add: match_var_def)
  next
    case (Cons x2 a2)
    show ?thesis
    proof (cases "\<forall>c\<in>set a2. path_char c")
      case True
      then have f: "takeWhile path_char (a2 @ Y) = a2" "dropWhile path_char (a2 @ Y) = Y"
        "takeWhile path_char a2 = a2" "dropWhile path_char a2 = []"
        using takeWhile_stop [of a2 path_char "CHR ''{''" "CHR ''{'' # Y'"]
          dropWhile_stop [of a2 path_char "CHR ''{''" "CHR ''{'' # Y'"] Y
        by simp_all
      show ?thesis
        unfolding a Cons by (simp add: match_var_def f) (auto simp: Y)
    next
      case False
      then obtain c where c: "c \<in> set a2" "\<not> path_char c" by blast
      let ?p = "takeWhile path_char a2"
      let ?r = "dropWhile path_char a2"
      have t: "takeWhile path_char (a2 @ Y) = ?p" "dropWhile path_char (a2 @ Y) = ?r @ Y"
        using c by (simp_all add: takeWhile_append1 dropWhile_append1)
      have r: "?r \<noteq> []"
        using c by (metis dropWhile_eq_Nil_conv)
      have cl: "starts_with ''}}'' (?r @ Y) \<longleftrightarrow> starts_with ''}}'' ?r"
        unfolding Y by (rule closing_append [OF r])
      have "length a2 = length ?p + length ?r"
        by (metis length_append takeWhile_dropWhile_id)
      then have "starts_with ''}}'' ?r \<Longrightarrow> length ?p + 4 \<le> length (x # x2 # a2)"
        using closing_length by fastforce
      then have "starts_with ''}}'' ?r \<Longrightarrow>
          take (length ?p + 4) ((x # x2 # a2) @ Y) = take (length ?p + 4) (x # x2 # a2)"
        by (simp del: append_Cons)
      then show ?thesis
        using a Cons t cl by (auto simp: match_var_def Let_def)
    qed
  qed
qed

lemma take_construct:
  "take (length p + 4) (CHR ''{'' # CHR ''{'' # p @ CHR ''}'' # CHR ''}'' # post)
     = CHR ''{'' # CHR ''{'' # p @ ''}}''"
  "drop (length p + 4) (CHR ''{'' # CHR ''{'' # p @ CHR ''}'' # CHR ''}'' # post) = post"
  by (simp_all add: eval_nat_numeral)

lemma match_var_construct:
  assumes "dotted_path p"
  shows "match_var (''{{'' @ p @ ''}}'' @ post) = Some ((''{{'' @ p @ ''}}'', p), length p + 4)"
proof -
  have pc: "\<forall>c\<in>set p. path_char c"
    using dotted_path_chars [OF assms] by blast
  have t: "takeWhile path_char (p @ CHR ''}'' # CHR ''}'' # post) = p"
    using takeWhile_stop [of p path_char "CHR ''}''" "CHR ''}'' # post"] pc by simp
  have t': "dropWhile path_char (p @ CHR ''}'' # CHR ''}'' # post) = CHR ''}'' # CHR ''}'' # post"
    using dropWhile_stop [of p path_char "CHR ''}''" "CHR ''}'' # post"] pc by simp
  show ?thesis
    using assms by (simp add: match_var_def t t' take_construct)
qed

text \<open>
  C4. In the variable pass every construct \<open>{{p}}\<close> with a dotted path \<open>p\<close>, wherever it stands
  in the template, is replaced by the empty string when \<open>p\<close> resolves to \<open>null\<close> or
  \<open>undefined\<close>, by the JSON text of the value when it is an array or an object, and by its
  string conversion otherwise; the text before and after it is processed on its own.
\<close>

theorem variable_reference:
  assumes "dotted_path p" and "getValueByPath N d p = Inr v"
  shows "processVariables N (pre @ ''{{'' @ p @ ''}}'' @ post) d
           = then_res (processVariables N pre d) (\<lambda>a.
               then_res (processVariables N post d) (\<lambda>b.
                 Inr (a @ (case v of
                             VUndefined \<Rightarrow> []
                           | VNull \<Rightarrow> []
                           | VArr xs \<Rightarrow> the (json_stringify N v)
                           | VObj kvs \<Rightarrow> the (json_stringify N v)
                           | _ \<Rightarrow> to_string N v) @ b)))"
proof -
  let ?c = "''{{'' @ p @ ''}}''"
  let ?cp = "''{{'' @ p @ ''}}'' @ post"
  have 1: "processVariables N (pre @ ?cp) d
      = then_res (processVariables N pre d) (\<lambda>a.
          then_res (processVariables N ?cp d) (\<lambda>b. Inr (a @ b)))"
    unfolding processVariables_def
  proof (rule replace_all_append)
    show "match_var (drop n pre @ ?cp) = match_var (drop n pre)" if "n < length pre" for n
      using match_var_append [of "drop n pre" ?cp] that by simp
    show "0 < len \<and> len \<le> length pre - n" if "match_var (drop n pre) = Some (g, len)" for n g len
      using match_var_inside [OF that] by simp
  qed
  obtain x xs where p: "p = x # xs" "is_word x"
    using dotted_path_hd [OF assms(1)] by blast
  have nb: "\<not> starts_with ''#'' p" "\<not> starts_with ''/'' p"
    using p by (auto simp: is_word_def)
  have vt: "var_text N v = (case v of
                             VUndefined \<Rightarrow> []
                           | VNull \<Rightarrow> []
                           | VArr xs \<Rightarrow> the (json_stringify N v)
                           | VObj kvs \<Rightarrow> the (json_stringify N v)
                           | _ \<Rightarrow> to_string N v)"
    by (cases v) (simp_all add: var_text_def is_object_def)
  have "match_var ?cp = Some ((?c, p), length p + 4)"
    by (rule match_var_construct [OF assms(1)])
  then have "replace_all match_var (var_block N d) ?cp
      = then_res (var_block N d (?c, p)) (\<lambda>t.
          then_res (replace_all match_var (var_block N d) (drop (length p + 4) ?cp))
            (\<lambda>r. Inr (t @ r)))"
    by (rule replace_all_match) simp_all
  then have 2: "processVariables N ?cp d
      = then_res (processVariables N post d) (\<lambda>b. Inr (var_text N v @ b))"
    using nb by (simp add: processVariables_def var_block_def assms(2) take_construct)
  show ?thesis
    unfolding 1 2 vt
    by (cases "processVariables N pre d"; cases "processVariables N post d") simp_all
qed

theorem variable_reference_witness:
  "dotted_path ''name''
   \<and> getValueByPath int_ops (VObj [(''name'', VStr ''Ada'')]) ''name'' = Inr (VStr ''Ada'')
   \<and> processVariables int_ops ''Hello {{name}}!'' (VObj [(''name'', VStr ''Ada'')])
       = Inr ''Hello Ada!''"
proof -
  have h1: "dotted_path ''name''"
    by code_simp
  have h2: "getValueByPath int_ops (VObj [(''name'', VStr ''Ada'')]) ''name'' = Inr (VStr ''Ada'')"
    by code_simp
  have a: "processVariables int_ops ''Hello '' (VObj [(''name'', VStr ''Ada'')]) = Inr ''Hello ''"
    by code_simp
  have b: "processVariables int_ops ''!'' (VObj [(''name'', VStr ''Ada'')]) = Inr ''!''"
    by code_simp
  show ?thesis
    using variable_reference [OF h1 h2, of "''Hello ''" "''!''"] h1 h2 by (simp add: a b)
qed

section \<open>Helper constructs\<close>

lemma match_helper_inside:
  assumes "match_helper a = Some (g, len)"
  shows "0 < len \<and> len \<le> length a"
proof -
  let ?n = "takeWhile is_word (drop 2 a)"
  let ?r1 = "dropWhile is_word (drop 2 a)"
  let ?w = "takeWhile is_space ?r1"
  let ?r2 = "dropWhile is_space ?r1"
  let ?a = "takeWhile (\<lambda>c. c \<noteq> CHR ''}'') ?r2"
  let ?r3 = "dropWhile (\<lambda>c. c \<noteq> CHR ''}'') ?r2"
  from assms have 1: "starts_with ''{{'' a" "starts_with ''}}'' ?r3"
    "len = 2 + length ?n + length ?w + length ?a + 2"
    by (auto simp: match_helper_def Let_def split: if_splits)
  have "length (drop 2 a) = length ?n + length ?r1" "length ?r1 = length ?w + length ?r2"
    "length ?r2 = length ?a + length ?r3"
    by (rule length_takeWhile_dropWhile)+
  moreover have "2 \<le> length a"
    using 1(1) by (cases a; cases "tl a") auto
  ultimately show ?thesis
    using closing_length [OF 1(2)] 1(3) by simp
qed


lemma takeWhile_past:
  "\<not> P y \<Longrightarrow> takeWhile P (xs @ y # ys) = takeWhile P xs"
  by (induction xs) auto

lemma dropWhile_past:
  "\<not> P y \<Longrightarrow> dropWhile P (xs @ y # ys) = dropWhile P xs @ y # ys"
  by (induction xs) auto

lemma match_helper_construct:
  assumes "name \<noteq> []" "list_all is_word name" "ws \<noteq> []" "list_all is_space ws"
    and "args \<noteq> []" "CHR ''}'' \<notin> set args"
  shows "\<exists>argsString.
           match_helper (''{{'' @ name @ ws @ args @ ''}}'' @ post)
             = Some ((''{{'' @ name @ ws @ args @ ''}}'', name, argsString),
                 length (''{{'' @ name @ ws @ args @ ''}}''))"
proof -
  let ?s = "''{{'' @ name @ ws @ args @ ''}}'' @ post"
  let ?t = "CHR ''}'' # CHR ''}'' # post"
  define W where "W = takeWhile is_space (ws @ args)"
  define A where "A = dropWhile is_space (ws @ args)"
  obtain w ws' where ws: "ws = w # ws'" "is_space w"
    using assms(3,4) by (cases ws) auto
  have nw: "\<forall>c\<in>set name. is_word c"
    using assms(2) by (simp add: list_all_iff)
  have n: "takeWhile is_word (name @ ws @ args @ ?t) = name"
    "dropWhile is_word (name @ ws @ args @ ?t) = ws @ args @ ?t"
    using takeWhile_stop [of name is_word w "ws' @ args @ ?t"]
      dropWhile_stop [of name is_word w "ws' @ args @ ?t"] nw ws word_not_space
    by auto
  have w: "takeWhile is_space (ws @ args @ ?t) = W"
    "dropWhile is_space (ws @ args @ ?t) = A @ ?t"
    unfolding W_def A_def
    using takeWhile_past [of is_space "CHR ''}''" "ws @ args" "CHR ''}'' # post"]
      dropWhile_past [of is_space "CHR ''}''" "ws @ args" "CHR ''}'' # post"]
    by simp_all
  have "\<forall>c\<in>set ws. c \<noteq> CHR ''}''"
    using assms(4) by (auto simp: list_all_iff)
  then have "\<forall>c\<in>set (ws @ args). c \<noteq> CHR ''}''"
    using assms(6) by auto
  then have "\<forall>c\<in>set A. c \<noteq> CHR ''}''"
    unfolding A_def by (metis UnCI set_append takeWhile_dropWhile_id)
  then have a: "takeWhile (\<lambda>c. c \<noteq> CHR ''}'') (A @ ?t) = A"
    "dropWhile (\<lambda>c. c \<noteq> CHR ''}'') (A @ ?t) = ?t"
    using takeWhile_stop [of A "\<lambda>c. c \<noteq> CHR ''}''" "CHR ''}''" "CHR ''}'' # post"]
      dropWhile_stop [of A "\<lambda>c. c \<noteq> CHR ''}''" "CHR ''}''" "CHR ''}'' # post"]
    by simp_all
  have l: "length W + length A = length ws + length args"
    unfolding W_def A_def using length_takeWhile_dropWhile [of "ws @ args" is_space] by simp
  have w1: "W \<noteq> []"
    unfolding W_def using ws by simp
  have w2: "A = [] \<Longrightarrow> 2 \<le> length W"
    using l assms(3,5) by (cases ws; cases args) auto
  let ?len = "2 + length name + length W + length A + 2"
  have len: "?len = length (''{{'' @ name @ ws @ args @ ''}}'')"
    using l by simp
  have tk: "take ?len ?s = ''{{'' @ name @ ws @ args @ ''}}''"
    unfolding len by simp
  have d2: "drop 2 ?s = name @ ws @ args @ ?t" and sw: "starts_with ''{{'' ?s"
    by simp_all
  have "match_helper ?s =
      (if A \<noteq> [] then Some ((take ?len ?s, name, A), ?len)
       else Some ((take ?len ?s, name, [last W]), ?len))"
    unfolding match_helper_def d2 n w a Let_def
    using assms(1) w1 w2 sw by simp
  then show ?thesis
    unfolding tk len by (cases "A = []") auto
qed

lemma match_helper_ext:
  assumes "match_helper x = Some r"
  shows "match_helper (x @ y) = Some r"
proof -
  from assms have sw: "starts_with ''{{'' x"
    by (auto simp: match_helper_def Let_def split: if_splits)
  then obtain a2 where x: "x = CHR ''{'' # CHR ''{'' # a2"
    by (cases x; cases "tl x") auto
  let ?n = "takeWhile is_word a2"
  let ?r1 = "dropWhile is_word a2"
  let ?w = "takeWhile is_space ?r1"
  let ?r2 = "dropWhile is_space ?r1"
  let ?a = "takeWhile (\<lambda>c. c \<noteq> CHR ''}'') ?r2"
  let ?r3 = "dropWhile (\<lambda>c. c \<noteq> CHR ''}'') ?r2"
  let ?len = "2 + length ?n + length ?w + length ?a + 2"
  from assms x have c: "?w \<noteq> []" "starts_with ''}}'' ?r3"
    by (auto simp: match_helper_def Let_def split: if_splits)
  have r3: "?r3 \<noteq> []" using closing_length [OF c(2)] by force
  then have r2: "?r2 \<noteq> []" by (metis dropWhile.simps(1))
  have r1: "?r1 \<noteq> []" using c(1) by (metis takeWhile.simps(1))
  have t: "takeWhile is_word (a2 @ y) = ?n" "dropWhile is_word (a2 @ y) = ?r1 @ y"
    using tw_ext [OF r1] by simp_all
  have t1: "takeWhile is_space (?r1 @ y) = ?w" "dropWhile is_space (?r1 @ y) = ?r2 @ y"
    using tw_ext [OF r2] by simp_all
  have t2: "takeWhile (\<lambda>c. c \<noteq> CHR ''}'') (?r2 @ y) = ?a"
    "dropWhile (\<lambda>c. c \<noteq> CHR ''}'') (?r2 @ y) = ?r3 @ y"
    using tw_ext [OF r3] by simp_all
  have cl: "starts_with ''}}'' (?r3 @ y)"
    using c(2) by (rule starts_with_extend)
  have "length a2 = length ?n + length ?r1" "length ?r1 = length ?w + length ?r2"
    "length ?r2 = length ?a + length ?r3"
    by (rule length_takeWhile_dropWhile)+
  then have "?len \<le> length (CHR ''{'' # CHR ''{'' # a2)"
    using closing_length [OF c(2)] by simp
  then have tk: "take ?len ((CHR ''{'' # CHR ''{'' # a2) @ y) = take ?len (CHR ''{'' # CHR ''{'' # a2)"
    by (simp del: append_Cons)
  have 1: "match_helper (CHR ''{'' # CHR ''{'' # a2) =
      (if ?n \<noteq> []
       then (if ?a \<noteq> [] then Some ((take ?len (CHR ''{'' # CHR ''{'' # a2), ?n, ?a), ?len)
             else if 2 \<le> length ?w
               then Some ((take ?len (CHR ''{'' # CHR ''{'' # a2), ?n, [last ?w]), ?len)
             else None)
       else None)"
    using c by (simp add: match_helper_def Let_def)
  have 2: "match_helper ((CHR ''{'' # CHR ''{'' # a2) @ y) =
      (if ?n \<noteq> []
       then (if ?a \<noteq> [] then Some ((take ?len ((CHR ''{'' # CHR ''{'' # a2) @ y), ?n, ?a), ?len)
             else if 2 \<le> length ?w
               then Some ((take ?len ((CHR ''{'' # CHR ''{'' # a2) @ y), ?n, [last ?w]), ?len)
             else None)
       else None)"
    using c cl by (simp add: match_helper_def Let_def t t1 t2)
  show ?thesis
    using assms unfolding x 1 2 tk by simp
qed

lemma match_helper_restr:
  assumes "match_helper (x @ y) = Some (g, len)" "len \<le> length x"
  shows "match_helper x = Some (g, len)"
proof -
  from assms(1) have sw: "starts_with ''{{'' (x @ y)"
    by (auto simp: match_helper_def Let_def split: if_splits)
  have "4 \<le> len"
    using assms(1) by (auto simp: match_helper_def Let_def split: if_splits)
  then have "2 \<le> length x" using assms(2) by simp
  with sw obtain a2 where x: "x = CHR ''{'' # CHR ''{'' # a2"
    by (cases x; cases "tl x") auto
  let ?n = "takeWhile is_word a2"
  let ?r1 = "dropWhile is_word a2"
  let ?w = "takeWhile is_space ?r1"
  let ?r2 = "dropWhile is_space ?r1"
  let ?a = "takeWhile (\<lambda>c. c \<noteq> CHR ''}'') ?r2"
  let ?r3 = "dropWhile (\<lambda>c. c \<noteq> CHR ''}'') ?r2"
  let ?n' = "takeWhile is_word (a2 @ y)"
  let ?r1' = "dropWhile is_word (a2 @ y)"
  let ?w' = "takeWhile is_space ?r1'"
  let ?r2' = "dropWhile is_space ?r1'"
  let ?a' = "takeWhile (\<lambda>c. c \<noteq> CHR ''}'') ?r2'"
  let ?r3' = "dropWhile (\<lambda>c. c \<noteq> CHR ''}'') ?r2'"
  from assms(1) x have c: "?n' \<noteq> []" "?w' \<noteq> []" "starts_with ''}}'' ?r3'"
    "len = 2 + length ?n' + length ?w' + length ?a' + 2" "?a' \<noteq> [] \<or> 2 \<le> length ?w'"
    by (auto simp: match_helper_def Let_def split: if_splits)
  have l: "length ?n' + length ?w' + length ?a' + 2 \<le> length a2"
    using assms(2) c(4) x by simp
  have t: "?n' = ?n" "?r1' = ?r1 @ y"
    using tw_prefix [of is_word a2 y] l by simp_all
  have l1: "length a2 = length ?n + length ?r1"
    by (rule length_takeWhile_dropWhile)
  have "length (takeWhile is_space (?r1 @ y)) < length ?r1"
    using l l1 t by simp
  then have t1: "takeWhile is_space (?r1 @ y) = ?w" "dropWhile is_space (?r1 @ y) = ?r2 @ y"
    using tw_prefix [of is_space ?r1 y] by simp_all
  have l2: "length ?r1 = length ?w + length ?r2"
    by (rule length_takeWhile_dropWhile)
  have "length (takeWhile (\<lambda>c. c \<noteq> CHR ''}'') (?r2 @ y)) < length ?r2"
    using l l1 l2 t t1 by simp
  then have t2: "takeWhile (\<lambda>c. c \<noteq> CHR ''}'') (?r2 @ y) = ?a"
    "dropWhile (\<lambda>c. c \<noteq> CHR ''}'') (?r2 @ y) = ?r3 @ y"
    using tw_prefix [of "\<lambda>c. c \<noteq> CHR ''}''" ?r2 y] by simp_all
  have l3: "length ?r2 = length ?a + length ?r3"
    by (rule length_takeWhile_dropWhile)
  have "2 \<le> length ?r3"
    using l l1 l2 l3 t t1 t2 by simp
  then have cl: "starts_with ''}}'' ?r3"
    using c(3) starts_with_restrict [of "''}}''" ?r3 y] unfolding t t1 t2 by simp
  have "match_helper x \<noteq> None"
    using c(1,2,5) cl unfolding t t1 t2 x
    by (auto simp: match_helper_def Let_def)
  then obtain r where r: "match_helper x = Some r" by blast
  from match_helper_ext [OF r, of y] assms(1) r show ?thesis by simp
qed

lemma processHelpers_split:
  assumes "scan_reaches match_helper (length a) (a @ b)"
  shows "processHelpers N eng (a @ b) d
           = then_res (processHelpers N eng a d) (\<lambda>ra.
               then_res (processHelpers N eng b d) (\<lambda>rb. Inr (ra @ rb)))"
  unfolding processHelpers_def
  using match_helper_ext match_helper_restr match_helper_inside assms
  by (rule replace_all_reaches)

text \<open>
  C6. In the helper pass, a construct \<open>{{name args}}\<close> (an identifier, white space and an
  argument text) that the scan of the pass reaches and whose identifier is not in the helper
  registry is left in the output as its own literal text, neither blanked nor raised as an error;
  the text before it and the text after it are processed on their own. The constructs that the
  scan reaches are the matches of the expression of the pass. A construct is not reached when it
  lies inside an earlier match: the argument text of a match runs to the next closing brace,
  whatever it holds.
\<close>

theorem unknown_helper_unmodified:
  assumes "helpers eng name = None"
    and "name \<noteq> []" "list_all is_word name" "ws \<noteq> []" "list_all is_space ws"
    and "args \<noteq> []" "CHR ''}'' \<notin> set args"
    and "scan_reaches match_helper (length pre) (pre @ ''{{'' @ name @ ws @ args @ ''}}'' @ post)"
  shows "processHelpers N eng (pre @ ''{{'' @ name @ ws @ args @ ''}}'' @ post) d
           = then_res (processHelpers N eng pre d) (\<lambda>a.
               then_res (processHelpers N eng post d) (\<lambda>b.
                 Inr (a @ ''{{'' @ name @ ws @ args @ ''}}'' @ b)))"
proof -
  let ?c = "''{{'' @ name @ ws @ args @ ''}}''"
  let ?cp = "''{{'' @ name @ ws @ args @ ''}}'' @ post"
  have 1: "processHelpers N eng (pre @ ?cp) d
      = then_res (processHelpers N eng pre d) (\<lambda>a.
          then_res (processHelpers N eng ?cp d) (\<lambda>b. Inr (a @ b)))"
    using assms(8) by (rule processHelpers_split)
  obtain argsString where m: "match_helper ?cp = Some ((?c, name, argsString), length ?c)"
    using match_helper_construct [OF assms(2-7)] by blast
  have "replace_all match_helper (helper_block N eng d) ?cp
      = then_res (helper_block N eng d (?c, name, argsString)) (\<lambda>t.
          then_res (replace_all match_helper (helper_block N eng d) (drop (length ?c) ?cp))
            (\<lambda>r. Inr (t @ r)))"
    using m by (rule replace_all_match) simp_all
  moreover have "drop (length ?c) ?cp = post"
    by simp
  ultimately have 2: "processHelpers N eng ?cp d
      = then_res (processHelpers N eng post d) (\<lambda>b. Inr (?c @ b))"
    by (simp add: processHelpers_def helper_block_def assms(1))
  show ?thesis
    unfolding 1 2
    by (cases "processHelpers N eng pre d"; cases "processHelpers N eng post d") simp_all
qed

theorem unknown_helper_unmodified_witness:
  "helpers (bare_engine :: int option engine) ''unknownHelper'' = None
   \<and> ''unknownHelper'' \<noteq> [] \<and> list_all is_word ''unknownHelper''
   \<and> '' '' \<noteq> [] \<and> list_all is_space '' '' \<and> ''a b'' \<noteq> [] \<and> CHR ''}'' \<notin> set ''a b''
   \<and> scan_reaches match_helper (length ''<p>{{ {{x}} '')
        (''<p>{{ {{x}} '' @ ''{{'' @ ''unknownHelper'' @ '' '' @ ''a b'' @ ''}}'' @ ''</p>'')
   \<and> processHelpers int_ops bare_engine ''<p>{{ {{x}} {{unknownHelper a b}}</p>'' (VObj [])
       = Inr ''<p>{{ {{x}} {{unknownHelper a b}}</p>''"
proof -
  have h1: "helpers (bare_engine :: int option engine) ''unknownHelper'' = None"
    by (simp add: bare_engine_def)
  have h2: "''unknownHelper'' \<noteq> []" "list_all is_word ''unknownHelper''"
    "'' '' \<noteq> []" "list_all is_space '' ''" "''a b'' \<noteq> []" "CHR ''}'' \<notin> set ''a b''"
    by code_simp+
  have h3: "scan_reaches match_helper (length ''<p>{{ {{x}} '')
        (''<p>{{ {{x}} '' @ ''{{'' @ ''unknownHelper'' @ '' '' @ ''a b'' @ ''}}'' @ ''</p>'')"
    by code_simp
  have a: "processHelpers int_ops bare_engine ''<p>{{ {{x}} '' (VObj []) = Inr ''<p>{{ {{x}} ''"
    by code_simp
  have b: "processHelpers int_ops bare_engine ''</p>'' (VObj []) = Inr ''</p>''"
    by code_simp
  show ?thesis
    using unknown_helper_unmodified [OF h1 h2 h3, of int_ops "VObj []"] h1 h2 h3
    by (simp add: a b)
qed

text \<open>
  As the claim is written, every construct with an unregistered identifier is left as it is. In
  \<open>{{h {{u a b}}\<close> the construct \<open>{{u a b}}\<close> is not reached: it is part of the argument text of
  the match that starts at \<open>{{h\<close>. With \<open>h\<close> registered, the whole text is replaced by the
  result of \<open>h\<close>, and the construct is not in the output.
\<close>

theorem unknown_helper_unmodified_counterexample:
  "helpers (registerHelper ''h'' (\<lambda>args. Inr (VStr ''X'')) (bare_engine :: int option engine)) ''u''
     = None
   \<and> processHelpers int_ops (registerHelper ''h'' (\<lambda>args. Inr (VStr ''X'')) bare_engine)
       ''{{h {{u a b}}'' (VObj []) = Inr ''X''
   \<and> \<not> scan_reaches match_helper (length ''{{h '') ''{{h {{u a b}}''"
  by code_simp

section \<open>Helper arguments\<close>

lemma token_len_Nil [simp]: "token_len [] = 0"
  by (simp add: token_len.simps)

lemma token_len_space: "is_space c \<Longrightarrow> token_len (c # cs) = 0"
  by (subst token_len.simps) (auto simp: is_space_def dquote_def)

lemma token_len_plain:
  "c \<noteq> dquote \<Longrightarrow> \<not> is_space c \<Longrightarrow> token_len (c # cs) = 1 + token_len cs"
  by (subst token_len.simps) simp

lemma token_len_quoted_span:
  assumes "dquote \<notin> set q"
  shows "token_len (dquote # q @ dquote # s) = length q + 2 + token_len s"
proof -
  have "takeWhile (\<lambda>x. x \<noteq> dquote) (q @ dquote # s) = q"
    using assms by (induction q) auto
  then show ?thesis
    by (subst token_len.simps) (simp add: Let_def)
qed

lemma token_len_end: "s = [] \<or> is_space (hd s) \<Longrightarrow> token_len s = 0"
  by (cases s) (auto simp: token_len_space)

lemma token_len_bare:
  assumes "bare_word t" "s = [] \<or> is_space (hd s)"
  shows "token_len (t @ s) = length t"
proof -
  have "list_all (\<lambda>c. \<not> is_space c \<and> c \<noteq> dquote) t \<Longrightarrow> token_len (t @ s) = length t"
    by (induction t) (simp_all add: token_len_end [OF assms(2)] token_len_plain)
  then show ?thesis
    using assms(1) by (simp add: bare_word_def)
qed

lemma quoted_span_split:
  assumes "quoted_span t"
  shows "\<exists>q. t = dquote # q @ [dquote] \<and> dquote \<notin> set q \<and> butlast (tl t) = q"
proof -
  from assms obtain x xs where t: "t = x # xs" "x = dquote" "xs \<noteq> []"
    by (cases t; cases "tl t") (auto simp: quoted_span_def)
  then have "last xs = dquote"
    using assms by (simp add: quoted_span_def)
  then have "xs = butlast xs @ [dquote]"
    using t(3) by (metis append_butlast_last_id)
  then show ?thesis
    using t assms by (auto simp: quoted_span_def)
qed

lemma token_len_quoted:
  assumes "quoted_span t" "s = [] \<or> is_space (hd s)"
  shows "token_len (t @ s) = length t"
proof -
  obtain q where q: "t = dquote # q @ [dquote]" "dquote \<notin> set q"
    using quoted_span_split [OF assms(1)] by blast
  show ?thesis
    using token_len_quoted_span [OF q(2), of s] token_len_end [OF assms(2)] q(1) by simp
qed

lemma match_tokens_Nil [simp]: "match_tokens [] = []"
  by (simp add: match_tokens.simps)

lemma match_tokens_skip:
  "token_len (c # cs) = 0 \<Longrightarrow> match_tokens (c # cs) = match_tokens cs"
  by (subst match_tokens.simps) simp

lemma match_tokens_take:
  "0 < token_len s \<Longrightarrow>
   match_tokens s = take (token_len s) s # match_tokens (drop (token_len s) s)"
  by (subst match_tokens.simps) (cases s; simp)

lemma match_tokens_spaces:
  "list_all is_space ws \<Longrightarrow> match_tokens (ws @ rest) = match_tokens rest"
  by (induction ws) (simp_all add: match_tokens_skip token_len_space)

lemma match_tokens_token:
  assumes "bare_word t \<or> quoted_span t" "list_all is_space ws" "ws \<noteq> [] \<or> rest = []"
  shows "match_tokens (t @ ws @ rest) = t # match_tokens rest"
proof -
  have e: "ws @ rest = [] \<or> is_space (hd (ws @ rest))"
    using assms(2,3) by (cases ws) auto
  have l: "token_len (t @ ws @ rest) = length t"
    using assms(1) token_len_bare [OF _ e] token_len_quoted [OF _ e] by blast
  have "t \<noteq> []"
    using assms(1) by (auto simp: bare_word_def quoted_span_def)
  then have "match_tokens (t @ ws @ rest) = t # match_tokens (ws @ rest)"
    using match_tokens_take [of "t @ ws @ rest"] l by simp
  then show ?thesis
    by (simp add: match_tokens_spaces [OF assms(2)])
qed

lemma parse_arg_quoted:
  assumes "quoted_span t"
  shows "parse_arg N d t = Inr (VStr (butlast (tl t)))"
proof -
  obtain q where q: "t = dquote # q @ [dquote]"
    using quoted_span_split [OF assms] by blast
  show ?thesis
    unfolding q by (simp add: parse_arg_def)
qed

lemma parse_arg_bare:
  assumes "bare_word t"
  shows "parse_arg N d t =
           (if t = ''true'' then Inr (VBool True)
            else if t = ''false'' then Inr (VBool False)
            else if \<not> is_nan N (string_to_number N t) then Inr (VNum (string_to_number N t))
            else getValueByPath N d t)"
proof -
  obtain c cs where "t = c # cs" "c \<noteq> dquote"
    using assms by (cases t) (auto simp: bare_word_def)
  then show ?thesis
    by (simp add: parse_arg_def)
qed

lemma bare_not_quoted: "bare_word t \<Longrightarrow> \<not> quoted_span t"
  by (cases t) (auto simp: bare_word_def quoted_span_def)

text \<open>
  C7. The argument text is split at white space; a double-quoted span that stands between white
  space is one token. Such a token becomes the string between its quotes, ahead of every other
  classification. A bare token becomes a boolean when it is \<open>true\<close> or \<open>false\<close>, else a number
  when it looks numeric, and is else resolved as a data path against the context; so a bare
  numeric-looking token is never a path lookup. The first token of a text is classified so and
  parsing goes on with the rest.
\<close>

theorem helper_argument_parsing:
  assumes "bare_word t \<or> quoted_span t" "list_all is_space ws" "ws \<noteq> [] \<or> rest = []"
  shows "parseHelperArgs N (t @ ws @ rest) d
           = then_res
               (if quoted_span t then Inr (VStr (butlast (tl t)))
                else if t = ''true'' then Inr (VBool True)
                else if t = ''false'' then Inr (VBool False)
                else if \<not> is_nan N (string_to_number N t)
                  then Inr (VNum (string_to_number N t))
                else getValueByPath N d t)
               (\<lambda>v. then_res (parseHelperArgs N rest d) (\<lambda>vs. Inr (v # vs)))
       \<and> parseHelperArgs N (ws @ rest) d = parseHelperArgs N rest d
       \<and> parseHelperArgs N [] d = Inr []"
proof -
  have "parse_arg N d t =
      (if quoted_span t then Inr (VStr (butlast (tl t)))
       else if t = ''true'' then Inr (VBool True)
       else if t = ''false'' then Inr (VBool False)
       else if \<not> is_nan N (string_to_number N t) then Inr (VNum (string_to_number N t))
       else getValueByPath N d t)"
    using assms(1) parse_arg_quoted [of t N d] parse_arg_bare [of t N d] bare_not_quoted [of t]
    by auto
  then show ?thesis
    by (simp add: parseHelperArgs_def match_tokens_token [OF assms]
        match_tokens_spaces [OF assms(2)])
qed

theorem helper_argument_parsing_witness:
  "bare_word ''bio'' \<and> list_all is_space '' '' \<and> '' '' \<noteq> []
   \<and> parseHelperArgs int_ops ''bio 5'' (VObj [(''bio'', VStr ''Hello World'')])
       = Inr [VStr ''Hello World'', VNum (Some 5)]"
proof -
  have h: "bare_word ''bio''" "list_all is_space '' ''" "'' '' \<noteq> []"
    by code_simp+
  have e: "\<not> quoted_span ''bio''"
    "is_nan int_ops (string_to_number int_ops ''bio'')"
    "getValueByPath int_ops (VObj [(''bio'', VStr ''Hello World'')]) ''bio''
       = Inr (VStr ''Hello World'')"
    "parseHelperArgs int_ops ''5'' (VObj [(''bio'', VStr ''Hello World'')])
       = Inr [VNum (Some 5)]"
    by code_simp+
  show ?thesis
    using helper_argument_parsing
      [of "''bio''" "'' ''" "''5''" int_ops "VObj [(''bio'', VStr ''Hello World'')]"] h
    by (simp add: e)
qed

text \<open>
  As the claim is written, every double-quoted span is a token of its own with its quotes
  stripped, and every token is a boolean, a number or a path lookup. A span that follows other
  characters directly stays part of their token and keeps its quotes: \<open>x"a b"\<close> is resolved,
  quotes included, as one data path. A quoted numeric-looking token is a string, not a number.
\<close>

theorem helper_argument_parsing_counterexample:
  "parseHelperArgs int_ops (''x'' @ [dquote] @ ''a b'' @ [dquote])
       (VObj [(''x'' @ [dquote] @ ''a b'' @ [dquote], VStr ''glued'')])
     = Inr [VStr ''glued'']
   \<and> parseHelperArgs int_ops ([dquote] @ ''5'' @ [dquote]) (VObj []) = Inr [VStr ''5'']"
  by code_simp

section \<open>Compiled functions and late binding\<close>

lemma match_helper_construct_args:
  assumes "name \<noteq> []" "list_all is_word name" "ws \<noteq> []" "list_all is_space ws"
    and "args \<noteq> []" "\<not> is_space (hd args)" "CHR ''}'' \<notin> set args"
  shows "match_helper (''{{'' @ name @ ws @ args @ ''}}'' @ post)
           = Some ((''{{'' @ name @ ws @ args @ ''}}'', name, args),
               length (''{{'' @ name @ ws @ args @ ''}}''))"
proof -
  let ?s = "''{{'' @ name @ ws @ args @ ''}}'' @ post"
  let ?t = "CHR ''}'' # CHR ''}'' # post"
  obtain w ws' where ws: "ws = w # ws'" "is_space w"
    using assms(3,4) by (cases ws) auto
  obtain a as where args: "args = a # as" "\<not> is_space a"
    using assms(5,6) by (cases args) auto
  have nw: "\<forall>c\<in>set name. is_word c"
    using assms(2) by (simp add: list_all_iff)
  have sp: "\<forall>c\<in>set ws. is_space c"
    using assms(4) by (simp add: list_all_iff)
  have n: "takeWhile is_word (name @ ws @ args @ ?t) = name"
    "dropWhile is_word (name @ ws @ args @ ?t) = ws @ args @ ?t"
    using takeWhile_stop [of name is_word w "ws' @ args @ ?t"]
      dropWhile_stop [of name is_word w "ws' @ args @ ?t"] nw ws word_not_space
    by auto
  have w: "takeWhile is_space (ws @ args @ ?t) = ws"
    "dropWhile is_space (ws @ args @ ?t) = args @ ?t"
    using takeWhile_stop [of ws is_space a "as @ ?t"] dropWhile_stop [of ws is_space a "as @ ?t"]
      sp args by simp_all
  have "\<forall>c\<in>set args. c \<noteq> CHR ''}''"
    using assms(7) by auto
  then have a: "takeWhile (\<lambda>c. c \<noteq> CHR ''}'') (args @ ?t) = args"
    "dropWhile (\<lambda>c. c \<noteq> CHR ''}'') (args @ ?t) = ?t"
    using takeWhile_stop [of args "\<lambda>c. c \<noteq> CHR ''}''" "CHR ''}''" "CHR ''}'' # post"]
      dropWhile_stop [of args "\<lambda>c. c \<noteq> CHR ''}''" "CHR ''}''" "CHR ''}'' # post"]
    by simp_all
  let ?len = "2 + length name + length ws + length args + 2"
  have len: "?len = length (''{{'' @ name @ ws @ args @ ''}}'')"
    by simp
  have tk: "take ?len ?s = ''{{'' @ name @ ws @ args @ ''}}''"
    unfolding len by simp
  have d2: "drop 2 ?s = name @ ws @ args @ ?t" and sw: "starts_with ''{{'' ?s"
    by simp_all
  have "match_helper ?s = Some ((take ?len ?s, name, args), ?len)"
    unfolding match_helper_def d2 n w a Let_def
    using assms(1,3,5) sw by simp
  then show ?thesis
    unfolding tk len by simp
qed

lemma helper_construct_no_block:
  assumes "name \<noteq> []" "list_all is_word name" "ws \<noteq> []" "list_all is_space ws"
    and "CHR ''{'' \<notin> set args"
  shows "match_each (drop n (''{{'' @ name @ ws @ args @ ''}}'')) = None"
    and "match_if (drop n (''{{'' @ name @ ws @ args @ ''}}'')) = None"
    and "match_if_else (drop n (''{{'' @ name @ ws @ args @ ''}}'')) = None"
    and "match_var (drop n (''{{'' @ name @ ws @ args @ ''}}'')) = None"
proof -
  let ?body = "name @ ws @ args @ ''}}''"
  let ?c = "CHR ''{'' # CHR ''{'' # ?body"
  obtain x xs where name: "name = x # xs" "is_word x"
    using assms(1,2) by (cases name) auto
  obtain w ws' where ws: "ws = w # ws'" "is_space w"
    using assms(3,4) by (cases ws) auto
  have nw: "\<forall>c\<in>set name. is_word c"
    using assms(2) by (simp add: list_all_iff)
  have "CHR ''{'' \<notin> set name"
    using nw by auto
  moreover have "CHR ''{'' \<notin> set ws"
    using assms(4) by (auto simp: list_all_iff)
  ultimately have b: "CHR ''{'' \<notin> set ?body"
    using assms(5) by simp
  have later: "\<not> starts_with ''{{'' (drop n ?c)" if "0 < n"
    using no_second_open [OF b that] .
  have sub: "starts_with ''{{#'' s \<Longrightarrow> starts_with ''{{'' s" for s
    by (cases s; cases "tl s") auto
  have x: "x \<noteq> CHR ''#''"
    using name(2) by (auto simp: is_word_def)
  have first: "\<not> starts_with ''{{#'' ?c"
    using name x by simp
  have blocks: "\<not> starts_with ''{{#'' (drop n ?c)"
    using first later sub by (cases "n = 0") auto
  have pc: "\<forall>c\<in>set name. path_char c"
    using nw by (simp add: path_char_def)
  have "\<not> path_char w"
    using ws(2) path_char_not_space by blast
  then have t: "dropWhile path_char (name @ ws @ args @ ''}}'') = ws @ args @ ''}}''"
    using dropWhile_stop [of name path_char w "ws' @ args @ ''}}''"] pc ws by simp
  have "\<not> starts_with ''}}'' (ws @ args @ ''}}'')"
    using ws by auto
  then have v0: "match_var ?c = None"
    by (simp add: match_var_def t)
  show "match_each (drop n (''{{'' @ name @ ws @ args @ ''}}'')) = None"
    "match_if (drop n (''{{'' @ name @ ws @ args @ ''}}'')) = None"
    "match_if_else (drop n (''{{'' @ name @ ws @ args @ ''}}'')) = None"
    using no_open_no_match(1-3) [OF blocks] by simp_all
  show "match_var (drop n (''{{'' @ name @ ws @ args @ ''}}'')) = None"
  proof (cases "n = 0")
    case True
    then show ?thesis using v0 by simp
  next
    case False
    then show ?thesis
      using no_open_no_match(4) [OF later] by simp
  qed
qed

lemma helper_construct_pipeline:
  assumes "name \<noteq> []" "list_all is_word name" "ws \<noteq> []" "list_all is_space ws"
    and "CHR ''{'' \<notin> set args"
  shows "processTemplate (Suc depth) N eng (''{{'' @ name @ ws @ args @ ''}}'') d
           = processHelpers N eng (''{{'' @ name @ ws @ args @ ''}}'') d"
  using helper_construct_no_block [OF assms]
  by (simp add: processLoops_def processConditionals_def processVariables_def
      replace_all_no_match)

text \<open>
  C8. Helper lookup is late-bound. In a heap, the helper \<open>h\<close> is registered as \<open>g1\<close>, then \<open>t\<close>
  is compiled, then \<open>h\<close> is registered again as \<open>g2\<close>. The compiled function, called in the heap
  after the second registration, renders \<open>t\<close> with the registry in which \<open>h\<close> is \<open>g2\<close>: it
  returns what the pipeline returns for \<open>t\<close> with that registry, which is what \<open>render\<close> returns
  for \<open>t\<close> with that registry when \<open>t\<close> is not the name of a registered template. In
  particular, when it is compiled from the construct \<open>{{h args}}\<close>, it returns the string of the
  result of \<open>g2\<close> on the parsed arguments: \<open>g1\<close> has no part in the result.
\<close>

theorem compiled_helper_late_bound:
  assumes "h \<noteq> []" "list_all is_word h" "ws \<noteq> []" "list_all is_space ws"
    and "args \<noteq> []" "\<not> is_space (hd args)" "CHR ''}'' \<notin> set args" "CHR ''{'' \<notin> set args"
  shows "call_compiled (fst (compile_at self t (registerHelper_at self h g1 heap))) depth N d
           (registerHelper_at self h g2 (snd (compile_at self t (registerHelper_at self h g1 heap))))
         = processTemplate depth N ((heap self)\<lparr>helpers := (helpers (heap self))(h \<mapsto> g2)\<rparr>) t d
       \<and> (templates (heap self) t = None \<longrightarrow>
            call_compiled (fst (compile_at self t (registerHelper_at self h g1 heap))) depth N d
              (registerHelper_at self h g2
                 (snd (compile_at self t (registerHelper_at self h g1 heap))))
            = render depth N ((heap self)\<lparr>helpers := (helpers (heap self))(h \<mapsto> g2)\<rparr>) t d)
       \<and> call_compiled
           (fst (compile_at self (''{{'' @ h @ ws @ args @ ''}}'') (registerHelper_at self h g1 heap)))
           (Suc depth) N d
           (registerHelper_at self h g2
              (snd (compile_at self (''{{'' @ h @ ws @ args @ ''}}'')
                      (registerHelper_at self h g1 heap))))
         = then_res (parseHelperArgs N args d) (\<lambda>vs.
             then_res (g2 vs) (\<lambda>v. Inr (to_string N v)))"
proof -
  let ?eng = "(heap self)\<lparr>helpers := (helpers (heap self))(h \<mapsto> g2)\<rparr>"
  let ?c = "''{{'' @ h @ ws @ args @ ''}}''"
  have call: "call_compiled (fst (compile_at self t (registerHelper_at self h g1 heap))) depth N d
           (registerHelper_at self h g2 (snd (compile_at self t (registerHelper_at self h g1 heap))))
         = processTemplate depth N ?eng t d" for t depth
    by (simp add: call_compiled_def compile_at_def registerHelper_at_def registerHelper_def
        compile_def)
  have m: "match_helper ?c = Some ((?c, h, args), length ?c)"
    using match_helper_construct_args [OF assms(1-7), of "[]"] by simp
  have "processTemplate (Suc depth) N ?eng ?c d = processHelpers N ?eng ?c d"
    using assms(1-4,8) by (rule helper_construct_pipeline)
  also have "\<dots> = helper_block N ?eng d (?c, h, args)"
    unfolding processHelpers_def
    using replace_all_whole [of match_helper ?c "(?c, h, args)"] m by simp
  also have "\<dots> = then_res (parseHelperArgs N args d) (\<lambda>vs.
             then_res (g2 vs) (\<lambda>v. Inr (to_string N v)))"
    by (simp add: helper_block_def)
  finally have 1: "processTemplate (Suc depth) N ?eng ?c d
      = then_res (parseHelperArgs N args d) (\<lambda>vs. then_res (g2 vs) (\<lambda>v. Inr (to_string N v)))" .
  have 2: "templates (heap self) t = None \<longrightarrow>
      processTemplate depth N ?eng t d = render depth N ?eng t d"
    by (simp add: render_def processTemplate_value_def)
  show ?thesis
    using call [of t depth] call [of ?c "Suc depth"] 1 2 by simp
qed

theorem compiled_helper_late_bound_witness:
  "''shout'' \<noteq> [] \<and> list_all is_word ''shout'' \<and> '' '' \<noteq> [] \<and> list_all is_space '' ''
   \<and> ''name'' \<noteq> [] \<and> \<not> is_space (hd ''name'') \<and> CHR ''}'' \<notin> set ''name''
   \<and> CHR ''{'' \<notin> set ''name''
   \<and> call_compiled
        (fst (compile_at 0 ''{{shout name}}''
                (registerHelper_at 0 ''shout'' (\<lambda>vs. Inr (VStr ''one''))
                   (\<lambda>a. bare_engine :: int option engine))))
        (Suc 0) int_ops (VObj [(''name'', VStr ''Ada'')])
        (snd (compile_at 0 ''{{shout name}}''
                (registerHelper_at 0 ''shout'' (\<lambda>vs. Inr (VStr ''one''))
                   (\<lambda>a. bare_engine :: int option engine))))
      = Inr ''one''
   \<and> call_compiled
        (fst (compile_at 0 ''{{shout name}}''
                (registerHelper_at 0 ''shout'' (\<lambda>vs. Inr (VStr ''one''))
                   (\<lambda>a. bare_engine :: int option engine))))
        (Suc 0) int_ops (VObj [(''name'', VStr ''Ada'')])
        (registerHelper_at 0 ''shout'' (\<lambda>vs. Inr (hd vs))
           (snd (compile_at 0 ''{{shout name}}''
                   (registerHelper_at 0 ''shout'' (\<lambda>vs. Inr (VStr ''one''))
                      (\<lambda>a. bare_engine :: int option engine)))))
      = Inr ''Ada''
   \<and> templates (bare_engine :: int option engine) ''{{shout name}}'' = None
   \<and> render (Suc 0) int_ops
        ((bare_engine :: int option engine)
           \<lparr>helpers := (helpers bare_engine)(''shout'' \<mapsto> (\<lambda>vs. Inr (hd vs)))\<rparr>)
        ''{{shout name}}'' (VObj [(''name'', VStr ''Ada'')])
      = Inr ''Ada''"
proof -
  have h: "''shout'' \<noteq> []" "list_all is_word ''shout''" "'' '' \<noteq> []" "list_all is_space '' ''"
    "''name'' \<noteq> []" "\<not> is_space (hd ''name'')" "CHR ''}'' \<notin> set ''name''"
    "CHR ''{'' \<notin> set ''name''"
    by code_simp+
  have p: "parseHelperArgs int_ops ''name'' (VObj [(''name'', VStr ''Ada'')]) = Inr [VStr ''Ada'']"
    by code_simp
  have b: "call_compiled
        (fst (compile_at 0 ''{{shout name}}''
                (registerHelper_at 0 ''shout'' (\<lambda>vs. Inr (VStr ''one''))
                   (\<lambda>a. bare_engine :: int option engine))))
        (Suc 0) int_ops (VObj [(''name'', VStr ''Ada'')])
        (snd (compile_at 0 ''{{shout name}}''
                (registerHelper_at 0 ''shout'' (\<lambda>vs. Inr (VStr ''one''))
                   (\<lambda>a. bare_engine :: int option engine))))
      = Inr ''one''"
    by code_simp
  have t: "templates (bare_engine :: int option engine) ''{{shout name}}'' = None"
    by (simp add: bare_engine_def)
  show ?thesis
    using compiled_helper_late_bound [OF h, where self = 0 and t = "''{{shout name}}''"
         and ?g1.0 = "\<lambda>vs. Inr (VStr ''one'')" and heap = "\<lambda>a. bare_engine :: int option engine"
         and depth = 0 and N = int_ops and d = "VObj [(''name'', VStr ''Ada'')]"
         and ?g2.0 = "\<lambda>vs. Inr (hd vs)"]
      compiled_helper_late_bound [OF h, where self = 0 and t = "''{{shout name}}''"
         and ?g1.0 = "\<lambda>vs. Inr (VStr ''one'')" and heap = "\<lambda>a. bare_engine :: int option engine"
         and depth = "Suc 0" and N = int_ops and d = "VObj [(''name'', VStr ''Ada'')]"
         and ?g2.0 = "\<lambda>vs. Inr (hd vs)"]
      h b t
    by (auto simp: p simp del: processTemplate.simps)
qed

section \<open>The supplied context is not written\<close>

lemma then_st_Inl [simp]: "then_st (Inl e, st) f = (Inl e, st)"
  by (simp add: then_st_def)

lemma then_st_Inr [simp]: "then_st (Inr x, st) f = f x st"
  by (simp add: then_st_def)

lemma replace_all_st_Nil:
  "m [] = None \<Longrightarrow> replace_all_st m cb [] st = (Inr [], st)"
  by (simp add: replace_all_st.simps)

lemma replace_all_st_skip:
  "m (c # cs) = None \<Longrightarrow>
   replace_all_st m cb (c # cs) st
     = then_st (replace_all_st m cb cs st) (\<lambda>r st'. (Inr (c # r), st'))"
  by (subst replace_all_st.simps) simp

lemma replace_all_st_found:
  "m s = Some (g, len) \<Longrightarrow>
   replace_all_st m cb s st
     = then_st (cb g st) (\<lambda>t st'.
         case s of
           [] \<Rightarrow> (Inr t, st')
         | c # cs \<Rightarrow>
             then_st (replace_all_st m cb (if len = 0 then cs else drop len s) st')
               (\<lambda>r st''. (Inr (t @ (if len = 0 then [c] else []) @ r), st'')))"
  by (subst replace_all_st.simps) (cases s; cases "len = 0"; simp)

lemma grows_refl [simp]: "grows N a st st"
  by (simp add: grows_def)

lemma grows_nth: "grows N a st st' \<Longrightarrow> b < length st \<Longrightarrow> st' ! b = st ! b"
  by (auto simp: grows_def nth_append)

lemma grows_length: "grows N a st st' \<Longrightarrow> length st \<le> length st'"
  by (auto simp: grows_def)

lemma grows_deref: "grows N a st st' \<Longrightarrow> b < length st \<Longrightarrow> deref st' b = st ! b"
  using grows_nth [of N a st st' b] grows_length [of N a st st'] by (simp add: deref_def)

lemma grows_trans:
  assumes "grows N a st st1" "grows N a st1 st2"
  shows "grows N a st st2"
proof -
  obtain new1 where n1: "st1 = st @ new1"
    and p1: "\<And>k. k < length new1 \<Longrightarrow> \<exists>c path xs i.
              (c = a \<or> length st \<le> c) \<and> c < length st + k
              \<and> getValueByPath N (st1 ! c) path = Inr (VArr xs) \<and> i < length xs
              \<and> new1 ! k = itemData N (st1 ! c) (xs ! i) i (length xs)"
    using assms(1) unfolding grows_def by blast
  obtain new2 where n2: "st2 = st1 @ new2"
    and p2: "\<And>k. k < length new2 \<Longrightarrow> \<exists>c path xs i.
              (c = a \<or> length st1 \<le> c) \<and> c < length st1 + k
              \<and> getValueByPath N (st2 ! c) path = Inr (VArr xs) \<and> i < length xs
              \<and> new2 ! k = itemData N (st2 ! c) (xs ! i) i (length xs)"
    using assms(2) unfolding grows_def by blast
  have "\<exists>c path xs i.
          (c = a \<or> length st \<le> c) \<and> c < length st + k
          \<and> getValueByPath N (st2 ! c) path = Inr (VArr xs) \<and> i < length xs
          \<and> (new1 @ new2) ! k = itemData N (st2 ! c) (xs ! i) i (length xs)"
    if k: "k < length (new1 @ new2)" for k
  proof (cases "k < length new1")
    case True
    then obtain c path xs i where c: "c = a \<or> length st \<le> c" "c < length st + k"
      "getValueByPath N (st1 ! c) path = Inr (VArr xs)" "i < length xs"
      "new1 ! k = itemData N (st1 ! c) (xs ! i) i (length xs)"
      using p1 by blast
    have "c < length st1"
      using c(2) True n1 by simp
    then have "st2 ! c = st1 ! c"
      using n2 by (simp add: nth_append)
    then show ?thesis
      using c True
      by (intro exI [of _ c] exI [of _ path] exI [of _ xs] exI [of _ i]) (simp add: nth_append)
  next
    case False
    then have "k - length new1 < length new2"
      using k by simp
    then obtain c path xs i where c: "c = a \<or> length st1 \<le> c" "c < length st1 + (k - length new1)"
      "getValueByPath N (st2 ! c) path = Inr (VArr xs)" "i < length xs"
      "new2 ! (k - length new1) = itemData N (st2 ! c) (xs ! i) i (length xs)"
      using p2 by blast
    have "c = a \<or> length st \<le> c"
      using c(1) n1 by auto
    moreover have "c < length st + k"
      using c(2) n1 False by simp
    ultimately show ?thesis
      using c(3-5) False
      by (intro exI [of _ c] exI [of _ path] exI [of _ xs] exI [of _ i]) (simp add: nth_append)
  qed
  then show ?thesis
    unfolding grows_def using n1 n2 by (intro exI [of _ "new1 @ new2"]) simp
qed

lemma grows_scope:
  assumes "a < length st" "getValueByPath N (st ! a) path = Inr (VArr xs)" "i < length xs"
    and "grows N (length st) (st @ [itemData N (st ! a) (xs ! i) i (length xs)]) st'"
  shows "grows N a st st'"
proof -
  let ?scope = "itemData N (st ! a) (xs ! i) i (length xs)"
  obtain new' where n: "st' = (st @ [?scope]) @ new'"
    and p: "\<And>k. k < length new' \<Longrightarrow> \<exists>c path xs i.
              (c = length st \<or> length (st @ [?scope]) \<le> c) \<and> c < length (st @ [?scope]) + k
              \<and> getValueByPath N (st' ! c) path = Inr (VArr xs) \<and> i < length xs
              \<and> new' ! k = itemData N (st' ! c) (xs ! i) i (length xs)"
    using assms(4) unfolding grows_def by blast
  have a: "st' ! a = st ! a"
    using n assms(1) by (simp add: nth_append)
  have "\<exists>c path xs i.
          (c = a \<or> length st \<le> c) \<and> c < length st + k
          \<and> getValueByPath N (st' ! c) path = Inr (VArr xs) \<and> i < length xs
          \<and> (?scope # new') ! k = itemData N (st' ! c) (xs ! i) i (length xs)"
    if k: "k < length (?scope # new')" for k
  proof (cases k)
    case 0
    then show ?thesis
      using assms(1-3) a
      by (intro exI [of _ a] exI [of _ path] exI [of _ xs] exI [of _ i]) simp
  next
    case (Suc k')
    then have "k' < length new'"
      using k by simp
    then obtain c path xs i where c: "c = length st \<or> length (st @ [?scope]) \<le> c"
      "c < length (st @ [?scope]) + k'"
      "getValueByPath N (st' ! c) path = Inr (VArr xs)" "i < length xs"
      "new' ! k' = itemData N (st' ! c) (xs ! i) i (length xs)"
      using p by blast
    have "length st \<le> c" "c < length st + k"
      using c(1,2) Suc by auto
    then show ?thesis
      using c(3-5) Suc
      by (intro exI [of _ c] exI [of _ path] exI [of _ xs] exI [of _ i]) simp
  qed
  then show ?thesis
    unfolding grows_def using n by (intro exI [of _ "?scope # new'"]) simp
qed


lemma replace_all_st_grows:
  assumes cb: "\<And>g st1. grows N data st st1 \<Longrightarrow>
                 grows N data st1 (snd (cb_st g st1)) \<and> fst (cb_st g st1) = cb g"
  shows "grows N data st st1 \<Longrightarrow>
         grows N data st1 (snd (replace_all_st m cb_st t st1))
         \<and> fst (replace_all_st m cb_st t st1) = replace_all m cb t"
proof (induction "length t" arbitrary: t st1 rule: less_induct)
  case less
  show ?case
  proof (cases "m t")
    case None
    show ?thesis
    proof (cases t)
      case Nil
      then show ?thesis
        using None by (simp add: replace_all_st_Nil replace_all_Nil)
    next
      case (Cons c cs)
      have IH: "grows N data st1 (snd (replace_all_st m cb_st cs st1))"
        "fst (replace_all_st m cb_st cs st1) = replace_all m cb cs"
        using less.hyps [of cs st1] less.prems Cons by auto
      show ?thesis
        using None IH unfolding Cons
        by (cases "replace_all_st m cb_st cs st1"; cases "replace_all m cb cs")
          (auto simp: replace_all_st_skip replace_all_skip)
    qed
  next
    case (Some gl)
    obtain g len where gl: "m t = Some (g, len)" using Some by (cases gl) auto
    define st2 where "st2 = snd (cb_st g st1)"
    have c: "grows N data st1 st2" "fst (cb_st g st1) = cb g"
      using cb [OF less.prems, of g] by (auto simp: st2_def)
    have g2: "grows N data st st2"
      using less.prems c(1) by (rule grows_trans)
    show ?thesis
    proof (cases "cb g")
      case (Inl e)
      then have "cb_st g st1 = (Inl e, st2)"
        using c(2) by (cases "cb_st g st1") (auto simp: st2_def)
      then show ?thesis
        using gl Inl c(1)
        by (simp add: replace_all_st_found [of m t g len] replace_all_found [of m t g len])
    next
      case (Inr r)
      then have cbst: "cb_st g st1 = (Inr r, st2)"
        using c(2) by (cases "cb_st g st1") (auto simp: st2_def)
      show ?thesis
      proof (cases t)
        case Nil
        have "m [] = Some (g, len)"
          using gl Nil by simp
        then show ?thesis
          unfolding Nil using Inr cbst c(1)
          by (simp add: replace_all_st_found [of m "[]" g len] replace_all_found [of m "[]" g len])
      next
        case (Cons c' cs)
        let ?rest = "if len = 0 then cs else drop len t"
        have "length ?rest < length t"
          using Cons by auto
        then have IH: "grows N data st2 (snd (replace_all_st m cb_st ?rest st2))"
          "fst (replace_all_st m cb_st ?rest st2) = replace_all m cb ?rest"
          using less.hyps [of ?rest st2] g2 by blast+
        have g3: "grows N data st1 (snd (replace_all_st m cb_st ?rest st2))"
          using c(1) IH(1) by (rule grows_trans)
        have 1: "replace_all_st m cb_st t st1
            = then_st (replace_all_st m cb_st ?rest st2)
                (\<lambda>r' st''. (Inr (r @ (if len = 0 then [c'] else []) @ r'), st''))"
          by (subst replace_all_st_found [of m t g len]) (use gl cbst Cons in simp_all)
        have 2: "replace_all m cb t
            = then_res (replace_all m cb ?rest)
                (\<lambda>r'. Inr (r @ (if len = 0 then [c'] else []) @ r'))"
          by (subst replace_all_found [of m t g len]) (use gl Inr Cons in simp_all)
        show ?thesis
          unfolding 1 2 using IH(2) g3
          by (cases "replace_all_st m cb_st ?rest st2"; cases "replace_all m cb ?rest") auto
      qed
    qed
  qed
qed

lemma map_res_st_grows:
  assumes f: "\<And>x st1. x \<in> set xs \<Longrightarrow> grows N data st st1 \<Longrightarrow>
                grows N data st1 (snd (f_st x st1)) \<and> fst (f_st x st1) = f x"
  shows "grows N data st st1 \<Longrightarrow>
         grows N data st1 (snd (map_res_st f_st xs st1)) \<and> fst (map_res_st f_st xs st1) = map_res f xs"
  using f
proof (induction xs arbitrary: st1)
  case Nil
  show ?case by simp
next
  case (Cons a xs)
  define st2 where "st2 = snd (f_st a st1)"
  have a: "grows N data st1 st2" "fst (f_st a st1) = f a"
    using Cons.prems(2) [of a st1] Cons.prems(1) by (auto simp: st2_def)
  have fa: "f_st a st1 = (fst (f_st a st1), st2)"
    by (simp add: st2_def)
  have g2: "grows N data st st2"
    using Cons.prems(1) a(1) by (rule grows_trans)
  have IH: "grows N data st2 (snd (map_res_st f_st xs st2))"
    "fst (map_res_st f_st xs st2) = map_res f xs"
    using Cons.IH [OF g2] Cons.prems(2) by auto
  have g3: "grows N data st1 (snd (map_res_st f_st xs st2))"
    using a(1) IH(1) by (rule grows_trans)
  show ?case
  proof (cases "f a")
    case (Inl e)
    then have "f_st a st1 = (Inl e, st2)"
      using a(2) fa by simp
    then show ?thesis using Inl a(1) by simp
  next
    case (Inr y)
    then have "f_st a st1 = (Inr y, st2)"
      using a(2) fa by simp
    then show ?thesis
      using Inr IH(2) g3
      by (cases "map_res_st f_st xs st2"; cases "map_res f xs") auto
  qed
qed


lemma respects_storeD:
  "respects_store N f_st f \<Longrightarrow> a < length st \<Longrightarrow>
   grows N a st (snd (f_st t a st)) \<and> fst (f_st t a st) = f t (st ! a)"
  by (simp add: respects_store_def)

lemma loop_item_st_grows:
  assumes "respects_store N pt_st pt" "data < length st" "grows N data st st1"
    and "getValueByPath N (st ! data) path = Inr (VArr xs)" "i < length xs"
  shows "grows N data st1 (snd (loop_item_st N pt_st data content (length xs) (i, xs ! i) st1))
       \<and> fst (loop_item_st N pt_st data content (length xs) (i, xs ! i) st1)
           = loop_item N pt (st ! data) content (length xs) (i, xs ! i)"
proof -
  let ?scope = "itemData N (st ! data) (xs ! i) i (length xs)"
  let ?st' = "st1 @ [?scope]"
  have d: "deref st1 data = st ! data" "st1 ! data = st ! data" "data < length st1"
    using grows_deref [OF assms(3,2)] grows_nth [OF assms(3,2)] grows_length [OF assms(3)]
      assms(2)
    by simp_all
  have al: "alloc (itemData N (deref st1 data) (xs ! i) i (length xs)) st1 = (length st1, ?st')"
    using d by (simp add: alloc_def)
  have sc: "grows N data st1 st'" if "grows N (length st1) ?st' st'" for st'
    using d(3) _ assms(5) that
  proof (rule grows_scope [where a = data and st = st1 and path = path and xs = xs,
        unfolded d(2)])
    show "getValueByPath N (st ! data) path = Inr (VArr xs)" by (rule assms(4))
  qed
  show ?thesis
  proof (cases "replace_all match_this_prop (this_prop_text N (xs ! i)) content")
    case (Inl e)
    then show ?thesis
      unfolding loop_item_st_def loop_item_def using al sc [of ?st'] by simp
  next
    case (Inr itemContent)
    let ?c = "replace_this (this_replacement N (xs ! i)) [] itemContent"
    have "grows N (length st1) ?st' (snd (pt_st ?c (length st1) ?st'))
        \<and> fst (pt_st ?c (length st1) ?st') = pt ?c (?st' ! length st1)"
      by (rule respects_storeD [OF assms(1)]) simp
    then show ?thesis
      unfolding loop_item_st_def loop_item_def using al Inr sc by simp
  qed
qed

lemma loop_block_st_grows:
  assumes "respects_store N pt_st pt" "data < length st" "grows N data st st1"
  shows "grows N data st1 (snd (loop_block_st N pt_st data g st1))
       \<and> fst (loop_block_st N pt_st data g st1) = loop_block N pt (st ! data) g"
proof -
  obtain path content where g: "g = (path, content)" by (cases g)
  have d: "deref st1 data = st ! data"
    using grows_deref [OF assms(3,2)] .
  show ?thesis
  proof (cases "getValueByPath N (st ! data) path")
    case (Inl e)
    then show ?thesis
      unfolding g loop_block_st_def loop_block_def using d by simp
  next
    case (Inr items)
    show ?thesis
    proof (cases "\<exists>xs. items = VArr xs")
      case False
      then show ?thesis
        unfolding g loop_block_st_def loop_block_def using d Inr
        by (cases items) simp_all
    next
      case True
      then obtain xs where xs: "items = VArr xs" by blast
      let ?m = "map_res_st (loop_item_st N pt_st data content (length xs))
                  (zip [0..<length xs] xs) st1"
      have m: "grows N data st1 (snd ?m)
          \<and> fst ?m = map_res (loop_item N pt (st ! data) content (length xs))
                      (zip [0..<length xs] xs)"
      proof (rule map_res_st_grows [OF _ assms(3)])
        fix x and st2 :: "'a store"
        assume x: "x \<in> set (zip [0..<length xs] xs)" and g2: "grows N data st st2"
        obtain i item where ii: "x = (i, item)" by (cases x)
        then have "i < length xs" "item = xs ! i"
          using x by (auto simp: set_zip)
        then show "grows N data st2 (snd (loop_item_st N pt_st data content (length xs) x st2))
            \<and> fst (loop_item_st N pt_st data content (length xs) x st2)
                = loop_item N pt (st ! data) content (length xs) x"
          using loop_item_st_grows [OF assms(1,2) g2, of path xs i content] Inr xs ii by simp
      qed
      obtain r st2 where ms: "?m = (r, st2)" by (cases ?m)
      then have m': "grows N data st1 st2"
        "r = map_res (loop_item N pt (st ! data) content (length xs)) (zip [0..<length xs] xs)"
        using m by simp_all
      show ?thesis
        unfolding g loop_block_st_def loop_block_def using d Inr xs ms m'(1) m'(2) [symmetric]
        by (cases r) simp_all
    qed
  qed
qed

lemma processLoops_st_grows:
  assumes "respects_store N pt_st pt" "data < length st" "grows N data st st1"
  shows "grows N data st1 (snd (processLoops_st N pt_st t data st1))
       \<and> fst (processLoops_st N pt_st t data st1) = processLoops N pt t (st ! data)"
  unfolding processLoops_st_def processLoops_def
  using loop_block_st_grows [OF assms(1,2)] assms(3)
  by (rule replace_all_st_grows)


lemma if_else_block_st_grows:
  assumes "respects_store N pt_st pt" "data < length st" "grows N data st st1"
  shows "grows N data st1 (snd (if_else_block_st N pt_st data g st1))
       \<and> fst (if_else_block_st N pt_st data g st1) = if_else_block N pt (st ! data) g"
proof -
  obtain path tc fc where g: "g = (path, tc, fc)" by (cases g)
  have d: "deref st1 data = st ! data" "st1 ! data = st ! data" "data < length st1"
    using grows_deref [OF assms(3,2)] grows_nth [OF assms(3,2)] grows_length [OF assms(3)]
      assms(2)
    by simp_all
  have "\<And>c. grows N data st1 (snd (pt_st c data st1))
        \<and> fst (pt_st c data st1) = pt c (st1 ! data)"
    by (rule respects_storeD [OF assms(1) d(3)])
  then show ?thesis
    unfolding g if_else_block_st_def if_else_block_def using d
    by (cases "getValueByPath N (st ! data) path") auto
qed

lemma if_block_st_grows:
  assumes "respects_store N pt_st pt" "data < length st" "grows N data st st1"
  shows "grows N data st1 (snd (if_block_st N pt_st data g st1))
       \<and> fst (if_block_st N pt_st data g st1) = if_block N pt (st ! data) g"
proof -
  obtain path c where g: "g = (path, c)" by (cases g)
  have d: "deref st1 data = st ! data" "st1 ! data = st ! data" "data < length st1"
    using grows_deref [OF assms(3,2)] grows_nth [OF assms(3,2)] grows_length [OF assms(3)]
      assms(2)
    by simp_all
  have "\<And>c. grows N data st1 (snd (pt_st c data st1))
        \<and> fst (pt_st c data st1) = pt c (st1 ! data)"
    by (rule respects_storeD [OF assms(1) d(3)])
  then show ?thesis
    unfolding g if_block_st_def if_block_def using d
    by (cases "getValueByPath N (st ! data) path") auto
qed

lemma processConditionals_st_grows:
  assumes "respects_store N pt_st pt" "data < length st" "grows N data st st1"
  shows "grows N data st1 (snd (processConditionals_st N pt_st t data st1))
       \<and> fst (processConditionals_st N pt_st t data st1)
           = processConditionals N pt t (st ! data)"
proof -
  let ?a = "replace_all_st match_if_else (if_else_block_st N pt_st data) t st1"
  obtain r st2 where a: "?a = (r, st2)" by (cases ?a)
  have "grows N data st1 (snd ?a)
      \<and> fst ?a = replace_all match_if_else (if_else_block N pt (st ! data)) t"
    using if_else_block_st_grows [OF assms(1,2)] assms(3) by (rule replace_all_st_grows)
  then have a': "grows N data st1 st2"
    "r = replace_all match_if_else (if_else_block N pt (st ! data)) t"
    using a by simp_all
  have g2: "grows N data st st2"
    using assms(3) a'(1) by (rule grows_trans)
  have b: "grows N data st2 (snd (replace_all_st match_if (if_block_st N pt_st data) t' st2))
      \<and> fst (replace_all_st match_if (if_block_st N pt_st data) t' st2)
          = replace_all match_if (if_block N pt (st ! data)) t'" for t'
    using if_block_st_grows [OF assms(1,2)] g2 by (rule replace_all_st_grows)
  show ?thesis
  proof (cases r)
    case (Inl e)
    then show ?thesis
      unfolding processConditionals_st_def processConditionals_def
      using a a'(1) a'(2) [symmetric] by simp
  next
    case (Inr t')
    have "grows N data st1 (snd (replace_all_st match_if (if_block_st N pt_st data) t' st2))"
      using a'(1) b [of t'] by (blast intro: grows_trans)
    then show ?thesis
      unfolding processConditionals_st_def processConditionals_def
      using Inr a a'(2) [symmetric] b [of t'] by simp
  qed
qed

lemma helper_block_st_pure:
  "helper_block_st N (pure_engine eng) data g st = (helper_block N eng (deref st data) g, st)"
proof -
  obtain match helperName argsString where g: "g = (match, helperName, argsString)"
    by (cases g)
  show ?thesis
    unfolding g helper_block_st_def helper_block_def
    by (cases "helpers eng helperName"; cases "parseHelperArgs N argsString (deref st data)")
      (auto simp: pure_engine_def pure_helper_def then_res_def split: sum.splits)
qed

lemma processHelpers_st_grows:
  assumes "data < length st" "grows N data st st1"
  shows "grows N data st1 (snd (processHelpers_st N (pure_engine eng) t data st1))
       \<and> fst (processHelpers_st N (pure_engine eng) t data st1)
           = processHelpers N eng t (st ! data)"
  unfolding processHelpers_st_def processHelpers_def
proof (rule replace_all_st_grows [OF _ assms(2)])
  fix g and st2 :: "'a store"
  assume "grows N data st st2"
  then have "deref st2 data = st ! data"
    using assms(1) by (rule grows_deref)
  then show "grows N data st2 (snd (helper_block_st N (pure_engine eng) data g st2))
      \<and> fst (helper_block_st N (pure_engine eng) data g st2) = helper_block N eng (st ! data) g"
    by (simp add: helper_block_st_pure)
qed

lemma respects_store_processTemplate:
  "respects_store N (processTemplate_st depth N (pure_engine eng)) (processTemplate depth N eng)"
proof (induction depth)
  case 0
  show ?case by (simp add: respects_store_def)
next
  case (Suc depth)
  show ?case
    unfolding respects_store_def
  proof (intro allI impI)
    fix t a and st :: "'a store"
    assume a: "a < length st"
    let ?pt_st = "processTemplate_st depth N (pure_engine eng)"
    let ?pt = "processTemplate depth N eng"
    let ?l = "processLoops_st N ?pt_st t a st"
    obtain r1 st1 where l: "?l = (r1, st1)" by (cases ?l)
    have "grows N a st (snd ?l) \<and> fst ?l = processLoops N ?pt t (st ! a)"
      using Suc a by (rule processLoops_st_grows) simp
    then have l': "grows N a st st1" "r1 = processLoops N ?pt t (st ! a)"
      using l by simp_all
    show "grows N a st (snd (processTemplate_st (Suc depth) N (pure_engine eng) t a st))
        \<and> fst (processTemplate_st (Suc depth) N (pure_engine eng) t a st)
            = processTemplate (Suc depth) N eng t (st ! a)"
    proof (cases r1)
      case (Inl e)
      then show ?thesis
        using l l'(1) l'(2) [symmetric] by simp
    next
      case (Inr t1)
      let ?c = "processConditionals_st N ?pt_st t1 a st1"
      obtain r2 st2 where c: "?c = (r2, st2)" by (cases ?c)
      have "grows N a st1 (snd ?c) \<and> fst ?c = processConditionals N ?pt t1 (st ! a)"
        using Suc a l'(1) by (rule processConditionals_st_grows)
      then have c': "grows N a st1 st2" "r2 = processConditionals N ?pt t1 (st ! a)"
        using c by simp_all
      have g2: "grows N a st st2"
        using l'(1) c'(1) by (rule grows_trans)
      show ?thesis
      proof (cases r2)
        case (Inl e)
        then show ?thesis
          using Inr l l'(2) [symmetric] c g2 c'(2) [symmetric] by simp
      next
        case t2: (Inr t2)
        have d: "deref st2 a = st ! a"
          using g2 a by (rule grows_deref)
        show ?thesis
        proof (cases "processVariables N t2 (st ! a)")
          case (Inl e)
          then show ?thesis
            using Inr l l'(2) [symmetric] c g2 c'(2) [symmetric] t2 d by simp
        next
          case t3: (Inr t3)
          let ?h = "processHelpers_st N (pure_engine eng) t3 a st2"
          have h: "grows N a st2 (snd ?h) \<and> fst ?h = processHelpers N eng t3 (st ! a)"
            using a g2 by (rule processHelpers_st_grows)
          then have "grows N a st (snd ?h)"
            using g2 by (blast intro: grows_trans)
          then show ?thesis
            using Inr l l'(2) [symmetric] c c'(2) [symmetric] t2 d t3 h by simp
        qed
      qed
    qed
  qed
qed


lemma store_relationD:
  assumes "store_relation R"
  shows "R s s" "R a b \<Longrightarrow> R b c \<Longrightarrow> R a c" "R s (s @ [x])"
  using assms unfolding store_relation_def by blast+

lemma replace_all_st_rel:
  assumes R: "store_relation R" and cb: "\<And>g s. R s (snd (cb_st g s))"
  shows "R s (snd (replace_all_st m cb_st t s))"
proof (induction "length t" arbitrary: t s rule: less_induct)
  case less
  show ?case
  proof (cases "m t")
    case None
    show ?thesis
    proof (cases t)
      case Nil
      then show ?thesis
        using None store_relationD(1) [OF R] by (simp add: replace_all_st_Nil)
    next
      case (Cons c cs)
      have "R s (snd (replace_all_st m cb_st cs s))"
        using less [of cs s] Cons by simp
      then show ?thesis
        using None unfolding Cons
        by (cases "replace_all_st m cb_st cs s"; cases "fst (replace_all_st m cb_st cs s)")
          (auto simp: replace_all_st_skip)
    qed
  next
    case (Some gl)
    obtain g len where gl: "m t = Some (g, len)" using Some by (cases gl) auto
    obtain r s2 where c: "cb_st g s = (r, s2)" by (cases "cb_st g s")
    have r2: "R s s2"
      using cb [of s g] c by simp
    show ?thesis
    proof (cases r)
      case (Inl e)
      then show ?thesis
        using gl c r2 by (simp add: replace_all_st_found [of m t g len])
    next
      case (Inr x)
      show ?thesis
      proof (cases t)
        case Nil
        have "m [] = Some (g, len)"
          using gl Nil by simp
        then show ?thesis
          unfolding Nil using Inr c r2 by (simp add: replace_all_st_found [of m "[]" g len])
      next
        case (Cons c' cs)
        let ?rest = "if len = 0 then cs else drop len t"
        have "length ?rest < length t"
          using Cons by auto
        then have "R s2 (snd (replace_all_st m cb_st ?rest s2))"
          by (rule less)
        then have 3: "R s (snd (replace_all_st m cb_st ?rest s2))"
          using r2 store_relationD(2) [OF R] by blast
        have 1: "replace_all_st m cb_st t s
            = then_st (replace_all_st m cb_st ?rest s2)
                (\<lambda>r' st''. (Inr (x @ (if len = 0 then [c'] else []) @ r'), st''))"
          by (subst replace_all_st_found [of m t g len]) (use gl c Inr Cons in simp_all)
        show ?thesis
          unfolding 1 using 3
          by (cases "replace_all_st m cb_st ?rest s2";
              cases "fst (replace_all_st m cb_st ?rest s2)") auto
      qed
    qed
  qed
qed

lemma map_res_st_rel:
  assumes R: "store_relation R" and f: "\<And>x s. R s (snd (f_st x s))"
  shows "R s (snd (map_res_st f_st xs s))"
proof (induction xs arbitrary: s)
  case Nil
  show ?case using store_relationD(1) [OF R] by simp
next
  case (Cons a xs)
  obtain r s2 where a: "f_st a s = (r, s2)" by (cases "f_st a s")
  have r2: "R s s2"
    using f [of s a] a by simp
  have "R s (snd (map_res_st f_st xs s2))"
    using r2 Cons [of s2] store_relationD(2) [OF R] by blast
  then show ?case
    using a r2
    by (cases r; cases "map_res_st f_st xs s2"; cases "fst (map_res_st f_st xs s2)") auto
qed

lemma loop_block_st_rel:
  assumes R: "store_relation R" and pt: "\<And>t a s. R s (snd (pt_st t a s))"
  shows "R s (snd (loop_block_st N pt_st data g s))"
proof -
  obtain path content where g: "g = (path, content)" by (cases g)
  have item: "R s (snd (loop_item_st N pt_st data content len x s))" for len x s
  proof -
    obtain index item where x: "x = (index, item)" by (cases x)
    let ?s' = "s @ [itemData N (deref s data) item index len]"
    have 1: "R s ?s'"
      by (rule store_relationD(3) [OF R])
    have "R s (snd (pt_st c (length s) ?s'))" for c
      using 1 pt [of ?s' c "length s"] store_relationD(2) [OF R] by blast
    then show ?thesis
      unfolding x loop_item_st_def using 1
      by (cases "replace_all match_this_prop (this_prop_text N item) content")
        (simp_all add: alloc_def)
  qed
  have "R s (snd (then_st (map_res_st (loop_item_st N pt_st data content len) xs s)
      (\<lambda>parts st'. (Inr (concat parts), st'))))" for len xs
    using map_res_st_rel [where f_st = "loop_item_st N pt_st data content len" and s = s
        and xs = xs, OF R item]
    by (cases "map_res_st (loop_item_st N pt_st data content len) xs s";
        cases "fst (map_res_st (loop_item_st N pt_st data content len) xs s)") auto
  then show ?thesis
    unfolding g loop_block_st_def using store_relationD(1) [OF R]
    by (auto split: sum.splits jsval.splits)
qed

lemma processConditionals_st_rel:
  assumes R: "store_relation R" and pt: "\<And>t a s. R s (snd (pt_st t a s))"
  shows "R s (snd (processConditionals_st N pt_st t data s))"
proof -
  have ie: "R s (snd (if_else_block_st N pt_st data g s))" for g s
    using pt store_relationD(1) [OF R]
    by (cases g) (auto simp: if_else_block_st_def split: sum.splits)
  have i: "R s (snd (if_block_st N pt_st data g s))" for g s
    using pt store_relationD(1) [OF R]
    by (cases g) (auto simp: if_block_st_def split: sum.splits)
  let ?a = "replace_all_st match_if_else (if_else_block_st N pt_st data) t s"
  obtain r s2 where a: "?a = (r, s2)" by (cases ?a)
  have 1: "R s s2"
    using replace_all_st_rel [where cb_st = "if_else_block_st N pt_st data" and s = s
        and m = match_if_else and t = t, OF R ie] a by simp
  have "R s (snd (replace_all_st match_if (if_block_st N pt_st data) t' s2))" for t'
    using 1 replace_all_st_rel [where cb_st = "if_block_st N pt_st data" and s = s2
        and m = match_if and t = t', OF R i] store_relationD(2) [OF R]
    by blast
  then show ?thesis
    unfolding processConditionals_st_def using a 1 by (cases r) simp_all
qed

lemma processHelpers_st_rel:
  assumes R: "store_relation R" and h: "helpers_keep R eng"
  shows "R s (snd (processHelpers_st N eng t data s))"
  unfolding processHelpers_st_def
proof (rule replace_all_st_rel [OF R])
  fix g :: "string \<times> string \<times> string" and s :: "'a store"
  obtain match helperName argsString where g: "g = (match, helperName, argsString)"
    by (cases g)
  show "R s (snd (helper_block_st N eng data g s))"
  proof (cases "helpers_st eng helperName")
    case None
    then show ?thesis
      unfolding g helper_block_st_def using store_relationD(1) [OF R] by simp
  next
    case (Some helper)
    have hk: "R s (snd (helper args s))" for args
      using h Some unfolding helpers_keep_def by blast
    have "R s (snd (then_st (helper args s) (\<lambda>v st'. (Inr (to_string N v), st'))))" for args
    proof -
      obtain r s2 where hs: "helper args s = (r, s2)" by (cases "helper args s")
      have "R s s2"
        using hk [of args] hs by simp
      then show ?thesis
        using hs by (cases r) simp_all
    qed
    then show ?thesis
      unfolding g helper_block_st_def using Some store_relationD(1) [OF R]
      by (auto split: sum.splits)
  qed
qed

lemma processTemplate_st_rel:
  assumes R: "store_relation R" and h: "helpers_keep R eng"
  shows "R s (snd (processTemplate_st depth N eng t a s))"
proof (induction depth arbitrary: t a s)
  case 0
  show ?case using store_relationD(1) [OF R] by simp
next
  case (Suc depth)
  let ?pt = "processTemplate_st depth N eng"
  let ?l = "processLoops_st N ?pt t a s"
  obtain r1 s1 where l: "?l = (r1, s1)" by (cases ?l)
  have 1: "R s s1"
    using replace_all_st_rel [where cb_st = "loop_block_st N ?pt a" and s = s
        and m = match_each and t = t, OF R loop_block_st_rel [OF R Suc]] l
    by (simp add: processLoops_st_def)
  show ?case
  proof (cases r1)
    case (Inl e)
    then show ?thesis using l 1 by simp
  next
    case (Inr t1)
    let ?c = "processConditionals_st N ?pt t1 a s1"
    obtain r2 s2 where c: "?c = (r2, s2)" by (cases ?c)
    have 2: "R s s2"
      using 1 processConditionals_st_rel [where pt_st = ?pt and N = N and t = t1 and data = a
          and s = s1, OF R Suc] c store_relationD(2) [OF R]
      by fastforce
    show ?thesis
    proof (cases r2)
      case (Inl e)
      then show ?thesis using Inr l c 2 by simp
    next
      case t2: (Inr t2)
      have "R s (snd (processHelpers_st N eng t3 a s2))" for t3
        using 2 processHelpers_st_rel [OF R h, where s = s2 and N = N and t = t3 and data = a]
          store_relationD(2) [OF R] by blast
      then show ?thesis
        using Inr l c t2 2 by (cases "processVariables N t2 (deref s2 a)") simp_all
    qed
  qed
qed

lemma render_st_rel:
  assumes "store_relation R" "helpers_keep R eng"
  shows "R s (snd (render_st depth N eng templateName data s))"
  using processTemplate_st_rel [OF assms] store_relationD(1) [OF assms(1)]
  unfolding render_st_def Let_def
  by (auto split: sum.splits jsval.splits)

lemma itemData_object:
  assumes "i < n"
  shows "\<exists>sc. itemData N (VObj kvs) item i n = VObj sc
           \<and> map_of sc = (map_of kvs)
                (''this'' \<mapsto> item, ''@index'' \<mapsto> VNum (of_index N i),
                 ''@first'' \<mapsto> VBool (i = 0), ''@last'' \<mapsto> VBool (i = n - 1))"
proof -
  have "int i = int n - 1 \<longleftrightarrow> i = n - 1"
    using assms by auto
  then show ?thesis
    by (simp add: itemData_def map_of_set_prop)
qed

lemma render_st_grows:
  assumes "data < length st"
  shows "grows N data st (snd (render_st depth N (pure_engine eng) templateName data st))
       \<and> fst (render_st depth N (pure_engine eng) templateName data st)
           = render depth N eng templateName (st ! data)"
proof -
  have pt: "grows N data st (snd (processTemplate_st depth N (pure_engine eng) t data st))
      \<and> fst (processTemplate_st depth N (pure_engine eng) t data st)
          = processTemplate depth N eng t (st ! data)" for t
    using respects_storeD [OF respects_store_processTemplate assms] by blast
  have ts: "templates_st (pure_engine eng) = templates eng"
    by (simp add: pure_engine_def)
  show ?thesis
  proof (cases "templates eng templateName")
    case None
    then show ?thesis
      using pt by (simp add: render_st_def render_def processTemplate_value_def ts)
  next
    case (Some template)
    show ?thesis
    proof (cases "truthy N template")
      case False
      then show ?thesis
        using Some pt by (simp add: render_st_def render_def processTemplate_value_def ts)
    next
      case True
      then obtain h where h: "prop_get N template ''html'' = Inr h"
        by (cases template) auto
      show ?thesis
        using Some True h pt
        by (cases "if truthy N h then h else template")
          (simp_all add: render_st_def render_def processTemplate_value_def ts)
    qed
  qed
qed

text \<open>
  C9. The passes of \<open>render\<close> write to no object: all they do to the store is to add objects
  and to call the registered helpers. So a relation between stores that the helpers keep is kept
  by \<open>render\<close>, for every engine: \<open>render\<close> leaves the context it is given unchanged when the
  registered helpers do.

  For an engine whose helpers only read their arguments, rendering only adds objects: every
  object that was in the store before, the supplied context among them, is the same afterwards.
  Each added object is a loop scope. It belongs to an enclosing context, which is the supplied
  context or a loop scope added before it, and to an element \<open>xs[i]\<close> of an array that a path
  resolves to in that context: it is a new object with the properties of the enclosing context
  (the values are the same, the copy is shallow) and with \<open>this\<close> the element, \<open>@index\<close> =
  \<open>i\<close>, \<open>@first\<close> = (\<open>i = 0\<close>) and \<open>@last\<close> = (\<open>i = length - 1\<close>). The result is the one that
  \<open>render\<close> over values gives for the object at the address, so no scope outlives its iteration
  in what is rendered.
\<close>

theorem render_leaves_context_unchanged:
  assumes "data < length st"
  shows "(store_relation R \<and> helpers_keep R eng_st \<longrightarrow>
            R st (snd (render_st depth N eng_st templateName data st)))
       \<and> (\<exists>new. snd (render_st depth N (pure_engine eng) templateName data st) = st @ new)
       \<and> (\<forall>a<length st. snd (render_st depth N (pure_engine eng) templateName data st) ! a = st ! a)
       \<and> (\<forall>kvs new. st ! data = VObj kvs
              \<and> snd (render_st depth N (pure_engine eng) templateName data st) = st @ new \<longrightarrow>
            (\<forall>k<length new. \<exists>c ckvs path xs i sc.
               (c = data \<or> length st \<le> c) \<and> c < length st + k
               \<and> (st @ new) ! c = VObj ckvs
               \<and> getValueByPath N (VObj ckvs) path = Inr (VArr xs) \<and> i < length xs
               \<and> new ! k = VObj sc
               \<and> map_of sc = (map_of ckvs)
                    (''this'' \<mapsto> xs ! i, ''@index'' \<mapsto> VNum (of_index N i),
                     ''@first'' \<mapsto> VBool (i = 0), ''@last'' \<mapsto> VBool (i = length xs - 1))))
       \<and> fst (render_st depth N (pure_engine eng) templateName data st)
           = render depth N eng templateName (st ! data)"
proof -
  let ?r = "render_st depth N (pure_engine eng) templateName data st"
  note g = render_st_grows [OF assms, of N depth eng templateName]
  then have gr: "grows N data st (snd ?r)" by simp
  have 1: "\<exists>new. snd ?r = st @ new"
    using gr by (auto simp: grows_def)
  have 2: "\<forall>a<length st. snd ?r ! a = st ! a"
    using gr grows_nth by blast
  have 3: "\<exists>c ckvs path xs i sc.
             (c = data \<or> length st \<le> c) \<and> c < length st + k
             \<and> (st @ new) ! c = VObj ckvs
             \<and> getValueByPath N (VObj ckvs) path = Inr (VArr xs) \<and> i < length xs
             \<and> new ! k = VObj sc
             \<and> map_of sc = (map_of ckvs)
                  (''this'' \<mapsto> xs ! i, ''@index'' \<mapsto> VNum (of_index N i),
                   ''@first'' \<mapsto> VBool (i = 0), ''@last'' \<mapsto> VBool (i = length xs - 1))"
    if d: "st ! data = VObj kvs" and n: "snd ?r = st @ new" and k: "k < length new"
    for kvs new k
  proof -
    have p: "\<exists>c path xs i.
              (c = data \<or> length st \<le> c) \<and> c < length st + j
              \<and> getValueByPath N ((st @ new) ! c) path = Inr (VArr xs) \<and> i < length xs
              \<and> new ! j = itemData N ((st @ new) ! c) (xs ! i) i (length xs)"
      if "j < length new" for j
      using gr that unfolding grows_def n by auto
    obtain c path xs i where c: "c = data \<or> length st \<le> c" "c < length st + k"
      "getValueByPath N ((st @ new) ! c) path = Inr (VArr xs)" "i < length xs"
      "new ! k = itemData N ((st @ new) ! c) (xs ! i) i (length xs)"
      using p [OF k] by blast
    have "\<exists>ckvs. (st @ new) ! c = VObj ckvs"
    proof (cases "c < length st")
      case True
      then have "c = data" using c(1) by auto
      then show ?thesis using d assms by (simp add: nth_append)
    next
      case False
      then have j: "c - length st < length new" "c - length st < k"
        using c(2) k by auto
      obtain c' path' xs' i' where
        "new ! (c - length st) = itemData N ((st @ new) ! c') (xs' ! i') i' (length xs')"
        using p [OF j(1)] by blast
      then show ?thesis
        using False by (simp add: nth_append itemData_def)
    qed
    then obtain ckvs where ck: "(st @ new) ! c = VObj ckvs" by blast
    obtain sc where sc: "itemData N (VObj ckvs) (xs ! i) i (length xs) = VObj sc"
      "map_of sc = (map_of ckvs)
          (''this'' \<mapsto> xs ! i, ''@index'' \<mapsto> VNum (of_index N i),
           ''@first'' \<mapsto> VBool (i = 0), ''@last'' \<mapsto> VBool (i = length xs - 1))"
      using itemData_object [OF c(4), of N ckvs "xs ! i"] by blast
    show ?thesis
      using c ck sc
      by (intro exI [of _ c] exI [of _ ckvs] exI [of _ path] exI [of _ xs] exI [of _ i]
          exI [of _ sc]) simp
  qed
  have 0: "store_relation R \<and> helpers_keep R eng_st \<longrightarrow>
      R st (snd (render_st depth N eng_st templateName data st))"
    using render_st_rel by blast
  from 0 1 2 3 g show ?thesis by blast
qed

theorem render_leaves_context_unchanged_witness:
  "(0::nat) < length [VObj [(''items'', VArr [VNum (Some (1::int)), VNum (Some 2)])]]
   \<and> take 1 (snd (render_st (Suc 0) int_ops
         \<lparr> templates_st = Map.empty,
           helpers_st = [''note'' \<mapsto> (\<lambda>args st. (Inr (VStr ''ok''), st @ [VNull]))] \<rparr>
         ''{{note items}}'' 0 [VObj [(''items'', VArr [VNum (Some 1), VNum (Some 2)])]]))
       = [VObj [(''items'', VArr [VNum (Some 1), VNum (Some 2)])]]
   \<and> snd (render_st 2 int_ops (pure_engine bare_engine) ''{{#each items}}{{this}},{{/each}}'' 0
            [VObj [(''items'', VArr [VNum (Some 1), VNum (Some 2)])]])
       = [VObj [(''items'', VArr [VNum (Some 1), VNum (Some 2)])],
          VObj [(''items'', VArr [VNum (Some 1), VNum (Some 2)]), (''this'', VNum (Some 1)),
                (''@index'', VNum (Some 0)), (''@first'', VBool True), (''@last'', VBool False)],
          VObj [(''items'', VArr [VNum (Some 1), VNum (Some 2)]), (''this'', VNum (Some 2)),
                (''@index'', VNum (Some 1)), (''@first'', VBool False), (''@last'', VBool True)]]
   \<and> snd (render_st 2 int_ops (pure_engine bare_engine) ''{{#each items}}{{this}},{{/each}}'' 0
            [VObj [(''items'', VArr [VNum (Some 1), VNum (Some 2)])]]) ! 0
       = VObj [(''items'', VArr [VNum (Some 1), VNum (Some 2)])]
   \<and> fst (render_st 2 int_ops (pure_engine bare_engine) ''{{#each items}}{{this}},{{/each}}'' 0
            [VObj [(''items'', VArr [VNum (Some 1), VNum (Some 2)])]]) = Inr ''1,2,''"
proof -
  let ?d = "VObj [(''items'', VArr [VNum (Some 1), VNum (Some 2)])] :: int option jsval"
  let ?R = "\<lambda>s s' :: int option store. take (length s) s' = s"
  let ?e = "\<lparr> templates_st = Map.empty,
              helpers_st = [''note'' \<mapsto> (\<lambda>args st. (Inr (VStr ''ok''), st @ [VNull]))] \<rparr>
            :: int option engine_st"
  have sr: "store_relation ?R"
    unfolding store_relation_def
  proof (intro conjI allI impI)
    fix a b c :: "int option store"
    assume ab: "take (length a) b = a" and bc: "take (length b) c = b"
    have "length (take (length a) b) = length a"
      using ab by simp
    then have "length a \<le> length b"
      by simp
    then have "take (length a) c = take (length a) (take (length b) c)"
      by (simp add: min_def)
    then show "take (length a) c = a"
      using ab bc by simp
  qed simp_all
  have hk: "helpers_keep ?R ?e"
    by (simp add: helpers_keep_def)
  have r: "render 2 int_ops bare_engine ''{{#each items}}{{this}},{{/each}}'' ?d = Inr ''1,2,''"
    by code_simp
  have l: "snd (render_st 2 int_ops (pure_engine bare_engine) ''{{#each items}}{{this}},{{/each}}'' 0
            [?d])
       = [?d,
          VObj [(''items'', VArr [VNum (Some 1), VNum (Some 2)]), (''this'', VNum (Some 1)),
                (''@index'', VNum (Some 0)), (''@first'', VBool True), (''@last'', VBool False)],
          VObj [(''items'', VArr [VNum (Some 1), VNum (Some 2)]), (''this'', VNum (Some 2)),
                (''@index'', VNum (Some 1)), (''@first'', VBool False), (''@last'', VBool True)]]"
    by code_simp
  have "0 < length [?d]" by simp
  note tA = render_leaves_context_unchanged
      [OF this, where R = ?R and eng_st = ?e and depth = "Suc 0" and N = int_ops
        and templateName = "''{{note items}}''"]
  have "0 < length [?d]" by simp
  note tB = render_leaves_context_unchanged
      [OF this, where depth = 2 and N = int_ops and eng = bare_engine
        and templateName = "''{{#each items}}{{this}},{{/each}}''"]
  have "take 1 (snd (render_st (Suc 0) int_ops ?e ''{{note items}}'' 0 [?d])) = [?d]"
    using tA sr hk by simp
  moreover have "fst (render_st 2 int_ops (pure_engine bare_engine)
        ''{{#each items}}{{this}},{{/each}}'' 0 [?d])
      = render 2 int_ops bare_engine ''{{#each items}}{{this}},{{/each}}'' ([?d] ! 0)"
    using tB by blast
  ultimately show ?thesis
    using r l by simp
qed

text \<open>
  As the claim is written, \<open>render\<close> leaves the context unchanged for every template. The values
  that a helper is called with are read from the context, and an object among them is the object
  of the context, not a copy: \<open>render\<close> does not copy the context before it hands values to a
  helper. Below, the context is \<open>{o: {x: 1}}\<close> and the helper \<open>touch\<close> is
  \<open>(o) => { o.x = 2; return 'ok' }\<close>. Rendering \<open>{{touch o}}\<close> returns \<open>ok\<close>, and the context is
  \<open>{o: {x: 2}}\<close> afterwards.
\<close>

theorem render_leaves_context_unchanged_counterexample:
  "render_st (Suc 0) int_ops
     \<lparr> templates_st = Map.empty,
       helpers_st = [''touch'' \<mapsto> (\<lambda>args st.
         (Inr (VStr ''ok''),
          st[0 := VObj (set_prop ''o''
                          (case hd args of
                             VObj kvs \<Rightarrow> VObj (set_prop ''x'' (VNum (Some 2)) kvs)
                           | v \<Rightarrow> v)
                          (spread (st ! 0)))]))] \<rparr>
     ''{{touch o}}'' 0 [VObj [(''o'', VObj [(''x'', VNum (Some 1))])]]
   = (Inr ''ok'', [VObj [(''o'', VObj [(''x'', VNum (Some 2))])]])
   \<and> [VObj [(''o'', VObj [(''x'', VNum (Some 2))])]]
       \<noteq> [VObj [(''o'', VObj [(''x'', VNum (Some (1::int)))])]]"
  by code_simp

end
